theory Spec2Isabelle
  imports Main "HOL-Library.Word" "HOL-Library.Multiset"
begin

section \<open>Columns, tables and bit-packed validity masks\<close>

text \<open>
  The two translation units under \<^verbatim>\<open>cpp/src/transform\<close> are embedded here: the
  validity unpacker \<^verbatim>\<open>mask_to_bools\<close> and the table transpose with its two kernels
  \<^verbatim>\<open>gpu_transpose\<close> and \<^verbatim>\<open>gpu_transpose_valids\<close>.

  \<^verbatim>\<open>size_type\<close> is a signed 32-bit integer. Sizes, offsets and indices are modelled as
  natural numbers (the library's containers reject negative sizes), and index arithmetic
  is modelled without wrap-around: the strided loops add a stride of at most
  \<open>32 * 65535\<close> to an index below the column or row count, which stays below
  \<open>2 ^ 31\<close> for tables of up to \<open>2 ^ 31 - 1 - 32 * 65535\<close> columns and rows.
  Null counts, which the
  validity kernel computes by a subtraction of two \<^verbatim>\<open>int\<close>s, are integers.
  Element payloads of the dispatched type \<^verbatim>\<open>T\<close> are values of a type variable: the
  kernels only copy them.
\<close>

type_synonym bitmask_type = "32 word"

text \<open>
  Modelled from the spec: the element type tags of \<^verbatim>\<open>cudf/types.hpp\<close> and the trait
  \<^verbatim>\<open>is_fixed_width\<close> of \<^verbatim>\<open>cudf/utilities/traits.hpp\<close>; a fixed-width type is an
  element type with a constant size, excluding variable-length text.
\<close>

datatype type_id = INT8 | INT16 | INT32 | INT64 | FLOAT32 | FLOAT64 | BOOL8 | STRING

definition is_fixed_width :: "type_id \<Rightarrow> bool" where
  "is_fixed_width t = (t \<noteq> STRING)"

text \<open>
  A column (and a view of one): the element type, the number of elements, the device
  buffer of payloads, the optional bit-packed validity buffer, the recorded null count
  and the offset of the first element in both buffers.
\<close>

record 'a column =
  dtype :: type_id
  csize :: nat
  data :: "'a list"
  null_mask :: "bitmask_type list option"
  null_count :: int
  offset :: nat

type_synonym 'a table = "'a column list"

definition num_columns :: "'a table \<Rightarrow> nat" where
  "num_columns t = length t"

definition num_rows :: "'a table \<Rightarrow> nat" where
  "num_rows t = (case t of [] \<Rightarrow> 0 | c # _ \<Rightarrow> csize c)"

definition column :: "'a table \<Rightarrow> nat \<Rightarrow> 'a column" where
  "column t i = t ! i"

text \<open>
  Modelled from the spec: the bit helpers of \<^verbatim>\<open>cudf/utilities/bit.hpp\<close>. Bit \<open>k\<close> of a
  mask (1 = valid, 0 = null) belongs to element \<open>k\<close>; bits are packed into 32-bit words.
\<close>

definition word_index :: "nat \<Rightarrow> nat" where
  "word_index bit_index = bit_index div 32"

definition intra_word_index :: "nat \<Rightarrow> nat" where
  "intra_word_index bit_index = bit_index mod 32"

definition bit_is_set :: "bitmask_type list \<Rightarrow> nat \<Rightarrow> bool" where
  "bit_is_set bitmask bit_index =
     bit (bitmask ! word_index bit_index) (intra_word_index bit_index)"

definition num_bitmask_words :: "nat \<Rightarrow> nat" where
  "num_bitmask_words n = n div 32 + (if n mod 32 \<noteq> 0 then 1 else 0)"

text \<open>
  Modelled from the spec: the element accessors of the column device view. The bit index
  of row \<open>r\<close> in a column with base offset \<open>off\<close> is \<open>off + r\<close>; a column without a
  mask has every element valid.
\<close>

definition element :: "'a column \<Rightarrow> nat \<Rightarrow> 'a" where
  "element c element_index = data c ! (offset c + element_index)"

definition is_valid :: "'a column \<Rightarrow> nat \<Rightarrow> bool" where
  "is_valid c element_index =
     (case null_mask c of None \<Rightarrow> True
      | Some m \<Rightarrow> bit_is_set m (offset c + element_index))"

text \<open>
  Modelled from the spec: \<^verbatim>\<open>has_nulls\<close> of the table view is true if any input column
  carries a mask with nonzero null count.
\<close>

definition has_nulls :: "'a table \<Rightarrow> bool" where
  "has_nulls t = list_ex (\<lambda>c. null_mask c \<noteq> None \<and> null_count c \<noteq> 0) t"

text \<open>
  Well-formed views: every buffer covers the viewed range, and all columns of a table have
  the same number of rows.
\<close>

definition valid_column :: "'a column \<Rightarrow> bool" where
  "valid_column c =
     (offset c + csize c \<le> length (data c) \<and>
      (case null_mask c of None \<Rightarrow> True
       | Some m \<Rightarrow> num_bitmask_words (offset c + csize c) \<le> length m))"

definition valid_table :: "'a table \<Rightarrow> bool" where
  "valid_table t =
     (list_all valid_column t \<and> list_all (\<lambda>c. csize c = num_rows t) t)"

section \<open>Errors and allocation\<close>

text \<open>
  \<^verbatim>\<open>CUDF_EXPECTS\<close> throws; the three failures of this code are told apart by their
  message: "nullmask is null" (\<open>InvalidArgument\<close>), "Column type mismatch"
  (\<open>TypeMismatch\<close>) and "Invalid, non-fixed-width type." (\<open>UnsupportedType\<close>).
\<close>

datatype error = InvalidArgument | TypeMismatch | UnsupportedType

datatype mask_allocation_policy = NEVER | ALWAYS

text \<open>
  The memory resource hands out uninitialised device memory: what a fresh buffer holds
  before the kernels write it is whatever the resource returns, per allocation and cell.
\<close>

record 'a device_memory_resource =
  fresh_data :: "nat \<Rightarrow> nat \<Rightarrow> 'a"
  fresh_mask :: "nat \<Rightarrow> nat \<Rightarrow> bitmask_type"

text \<open>
  Modelled from the spec: \<^verbatim>\<open>make_fixed_width_column\<close> of
  \<^verbatim>\<open>cudf/column/column_factories.hpp\<close> with \<^verbatim>\<open>mask_state::UNALLOCATED\<close> gives a new
  column of the given type and length with no mask of its own.
\<close>

definition make_fixed_width_column :: "type_id \<Rightarrow> nat \<Rightarrow> 'a list \<Rightarrow> 'a column" where
  "make_fixed_width_column t n contents =
     \<lparr>dtype = t, csize = n, data = contents, null_mask = None, null_count = 0, offset = 0\<rparr>"

text \<open>
  Modelled from the spec: \<^verbatim>\<open>allocate_like\<close> of \<^verbatim>\<open>cudf/detail/copy.hpp\<close> allocates
  a column of the type of \<open>like\<close> with \<open>n\<close> elements; under \<open>ALWAYS\<close> it gets a mask of
  \<open>num_bitmask_words n\<close> words, under \<open>NEVER\<close> none and null count 0. The argument
  \<open>k\<close> numbers the allocation.
\<close>

definition allocate_like ::
  "'a column \<Rightarrow> nat \<Rightarrow> mask_allocation_policy \<Rightarrow> 'a device_memory_resource \<Rightarrow> nat \<Rightarrow> 'a column"
where
  "allocate_like like n policy mr k =
     \<lparr>dtype = dtype like, csize = n,
      data = map (fresh_data mr k) [0..<n],
      null_mask = (case policy of NEVER \<Rightarrow> None
                   | ALWAYS \<Rightarrow> Some (map (fresh_mask mr k) [0..<num_bitmask_words n])),
      null_count = 0, offset = 0\<rparr>"

section \<open>The validity unpacker\<close>

text \<open>
  \<^verbatim>\<open>detail::mask_to_bools\<close>: the mask pointer is \<open>None\<close> when it is \<^verbatim>\<open>nullptr\<close>;
  \<^verbatim>\<open>thrust::transform\<close> over the counting range \<open>[0, size)\<close> is a map.
\<close>

definition mask_to_bools :: "bitmask_type list option \<Rightarrow> nat \<Rightarrow> nat \<Rightarrow> error + bool column" where
  "mask_to_bools bitmask offs len =
     (if len = 0 then Inr (make_fixed_width_column BOOL8 0 [])
      else case bitmask of
        None \<Rightarrow> Inl InvalidArgument
      | Some m \<Rightarrow>
          Inr (make_fixed_width_column BOOL8 len
                 (map (\<lambda>index. bit_is_set m (offs + index)) [0..<len])))"

section \<open>Kernel launches\<close>

text \<open>
  A kernel reads only the input views and writes only through the output views and the
  null-count buffer, so what a thread (or a warp) does is the list of device writes it
  issues: a store of an element, a store of a mask word, an atomic add to a null-count
  slot. A launch collects the writes of all its threads; the device memory after the
  launch is the memory before it with the writes applied.
\<close>

datatype 'a device_write =
    SetElement nat nat 'a
  | SetMaskWord nat nat bitmask_type
  | AtomicAdd nat int

text \<open>
  \<open>SetElement j i v\<close> is \<^verbatim>\<open>output.column(j).element<T>(i) = v\<close>,
  \<open>SetMaskWord j w r\<close> is \<^verbatim>\<open>output.column(j).set_mask_word(w, r)\<close> and
  \<open>AtomicAdd j n\<close> is \<^verbatim>\<open>atomicAdd(null_count + j, n)\<close>.
\<close>

fun apply_write :: "'a device_write \<Rightarrow> 'a table \<times> int list \<Rightarrow> 'a table \<times> int list" where
  "apply_write (SetElement j i v) (output, counts) =
     (output[j := (output ! j)\<lparr>data := (data (output ! j))[offset (output ! j) + i := v]\<rparr>],
      counts)"
| "apply_write (SetMaskWord j w r) (output, counts) =
     (output[j := (output ! j)\<lparr>null_mask := map_option (\<lambda>m. m[w := r]) (null_mask (output ! j))\<rparr>],
      counts)"
| "apply_write (AtomicAdd j n) (output, counts) =
     (output, counts[j := counts ! j + n])"

definition apply_writes :: "'a device_write list \<Rightarrow> 'a table \<times> int list \<Rightarrow> 'a table \<times> int list" where
  "apply_writes ws mem = fold apply_write ws mem"

definition WARP_SIZE :: nat where
  "WARP_SIZE = 32"

definition MAX_GRID_SIZE :: nat where
  "MAX_GRID_SIZE = 2 ^ 16 - 1"

text \<open>
  The grid and block extents of a launch and the coordinates of one thread in it
  (only the x and y components are used).
\<close>

record dim3 =
  dim_x :: nat
  dim_y :: nat

record thread_coords =
  gridDim :: dim3
  blockDim :: dim3
  blockIdx :: dim3
  threadIdx :: dim3

text \<open>
  The order in which the model lists the threads of a launch is one of the orders the
  device may run them in; the lemmas \<open>value_kernel_any_order\<close> and
  \<open>validity_kernel_any_order\<close> below show that the memory after a launch is the
  same for every other order of the writes.
\<close>

definition threads_of :: "dim3 \<Rightarrow> dim3 \<Rightarrow> thread_coords list" where
  "threads_of grid block =
     concat (map (\<lambda>by. concat (map (\<lambda>ty. concat (map (\<lambda>bx. map (\<lambda>tx.
       \<lparr>gridDim = grid, blockDim = block,
        blockIdx = \<lparr>dim_x = bx, dim_y = by\<rparr>, threadIdx = \<lparr>dim_x = tx, dim_y = ty\<rparr>\<rparr>)
       [0..<dim_x block]) [0..<dim_x grid])) [0..<dim_y block])) [0..<dim_y grid])"

text \<open>
  A launch runs the per-thread body for every thread; it returns only if every thread
  does.
\<close>

fun collect_writes :: "('t \<Rightarrow> 'w list option) \<Rightarrow> 't list \<Rightarrow> 'w list option" where
  "collect_writes body [] = Some []"
| "collect_writes body (t # ts) =
     Option.bind (body t) (\<lambda>ws. Option.bind (collect_writes body ts) (\<lambda>rest. Some (ws @ rest)))"

section \<open>The value kernel\<close>

text \<open>
  \<^verbatim>\<open>gpu_transpose\<close>: the inner loop over \<open>j\<close> and the outer loop over \<open>i\<close> of one
  thread. A loop with stride 0 that is entered does not return (\<open>None\<close>).
\<close>

partial_function (option) gpu_transpose_for_j ::
  "'a table \<Rightarrow> nat \<Rightarrow> nat \<Rightarrow> nat \<Rightarrow> 'a device_write list option"
where
  "gpu_transpose_for_j input stride_y i j =
     (if j < num_rows input
      then Option.bind (gpu_transpose_for_j input stride_y i (j + stride_y))
             (\<lambda>rest. Some (SetElement j i (element (column input i) j) # rest))
      else Some [])"

partial_function (option) gpu_transpose_for_i ::
  "'a table \<Rightarrow> nat \<Rightarrow> nat \<Rightarrow> nat \<Rightarrow> nat \<Rightarrow> 'a device_write list option"
where
  "gpu_transpose_for_i input stride_x stride_y y i =
     (if i < num_columns input
      then Option.bind (gpu_transpose_for_j input stride_y i y)
             (\<lambda>ws. Option.bind (gpu_transpose_for_i input stride_x stride_y y (i + stride_x))
                (\<lambda>rest. Some (ws @ rest)))
      else Some [])"

declare gpu_transpose_for_j.simps [code]
declare gpu_transpose_for_i.simps [code]

definition gpu_transpose :: "'a table \<Rightarrow> thread_coords \<Rightarrow> 'a device_write list option" where
  "gpu_transpose input t =
     (let x = dim_x (blockIdx t) * dim_x (blockDim t) + dim_x (threadIdx t);
          y = dim_y (blockIdx t) * dim_y (blockDim t) + dim_y (threadIdx t);
          stride_x = dim_x (blockDim t) * dim_x (gridDim t);
          stride_y = dim_y (blockDim t) * dim_y (gridDim t)
      in gpu_transpose_for_i input stride_x stride_y y x)"

section \<open>The validity kernel\<close>

text \<open>
  The warp intrinsics. \<^verbatim>\<open>__ballot_sync(mask, predicate)\<close> returns the word whose bit
  \<open>l\<close> is set if and only if lane \<open>l\<close> is named in the mask, is executing the call and has
  a true predicate; \<^verbatim>\<open>__popc\<close> counts the set bits of a word.
\<close>

definition lanes :: "nat list" where
  "lanes = [0..<WARP_SIZE]"

definition ballot_sync :: "bitmask_type \<Rightarrow> (nat \<Rightarrow> bool) \<Rightarrow> (nat \<Rightarrow> bool) \<Rightarrow> bitmask_type" where
  "ballot_sync member_mask executing predicate =
     horner_sum of_bool 2 (map (\<lambda>l. bit member_mask l \<and> executing l \<and> predicate l) lanes)"

definition popc :: "bitmask_type \<Rightarrow> int" where
  "popc w = int (length (filter (bit w) [0..<32]))"

text \<open>
  \<^verbatim>\<open>gpu_transpose_valids\<close> is run by a warp in lockstep. With the block extent
  \<open>(WARP_SIZE, WARP_SIZE)\<close> of \<^verbatim>\<open>launch_kernel\<close> a warp is one row of a block: its
  lanes share \<^verbatim>\<open>blockIdx\<close> and \<^verbatim>\<open>threadIdx.y\<close>, and lane \<open>l\<close> has
  \<^verbatim>\<open>threadIdx.x = l\<close>. The per-lane variable \<open>i\<close> is a function of the lane,
  \<open>executing\<close> tells which lanes are still inside the \<^verbatim>\<open>while\<close> loop, and the
  row loop is the same for all lanes because \<open>y\<close> is.

  The body of the row loop: the vote, then the writes of the lanes with
  \<^verbatim>\<open>0 == threadIdx.x % WARP_SIZE\<close>.
\<close>

partial_function (option) gpu_transpose_valids_for_j ::
  "'a table \<Rightarrow> nat \<Rightarrow> (nat \<Rightarrow> nat) \<Rightarrow> bitmask_type \<Rightarrow> (nat \<Rightarrow> bool) \<Rightarrow> nat
     \<Rightarrow> 'a device_write list option"
where
  "gpu_transpose_valids_for_j input stride_y i active_threads executing j =
     (if j < num_rows input
      then
        let result = ballot_sync active_threads executing (\<lambda>l. is_valid (column input (i l)) j);
            ws = concat (map (\<lambda>l. [SetMaskWord j (word_index (i l)) result,
                                    AtomicAdd j (popc active_threads - popc result)])
                           (filter (\<lambda>l. executing l \<and> 0 = l mod WARP_SIZE) lanes))
        in Option.bind
             (gpu_transpose_valids_for_j input stride_y i active_threads executing (j + stride_y))
             (\<lambda>rest. Some (ws @ rest))
      else Some [])"

text \<open>
  The \<^verbatim>\<open>while\<close> loop: the lanes whose \<open>i\<close> is still a column stay in the loop, run
  the row loop, advance \<open>i\<close> and vote again; the warp leaves the loop when no lane is
  left in it.
\<close>

partial_function (option) gpu_transpose_valids_while ::
  "'a table \<Rightarrow> nat \<Rightarrow> nat \<Rightarrow> nat \<Rightarrow> (nat \<Rightarrow> nat) \<Rightarrow> bitmask_type \<Rightarrow> (nat \<Rightarrow> bool)
     \<Rightarrow> 'a device_write list option"
where
  "gpu_transpose_valids_while input stride_x stride_y y i active_threads executing =
     (let executing' = (\<lambda>l. executing l \<and> i l < num_columns input)
      in if list_ex executing' lanes
         then Option.bind
                (gpu_transpose_valids_for_j input stride_y i active_threads executing' y)
                (\<lambda>ws.
                   let i' = (\<lambda>l. i l + stride_x);
                       active_threads' =
                         ballot_sync active_threads executing' (\<lambda>l. i' l < num_columns input)
                   in Option.bind
                        (gpu_transpose_valids_while input stride_x stride_y y i'
                           active_threads' executing')
                        (\<lambda>rest. Some (ws @ rest)))
         else Some [])"

declare gpu_transpose_valids_for_j.simps [code]
declare gpu_transpose_valids_while.simps [code]

text \<open>
  One warp, named by the coordinates of its lane 0: the thread indices, the first vote
  with the full mask, and the loop.
\<close>

definition gpu_transpose_valids :: "'a table \<Rightarrow> thread_coords \<Rightarrow> 'a device_write list option" where
  "gpu_transpose_valids input t =
     (let x = (\<lambda>l. dim_x (blockIdx t) * dim_x (blockDim t) + l);
          y = dim_y (blockIdx t) * dim_y (blockDim t) + dim_y (threadIdx t);
          stride_x = dim_x (blockDim t) * dim_x (gridDim t);
          stride_y = dim_y (blockDim t) * dim_y (gridDim t);
          i = x;
          active_threads = ballot_sync (- 1) (\<lambda>l. True) (\<lambda>l. i l < num_columns input)
      in gpu_transpose_valids_while input stride_x stride_y y i active_threads (\<lambda>l. True))"

text \<open>
  The warps of a launch whose block is \<open>WARP_SIZE\<close> wide, each named by its lane 0
  (\<^verbatim>\<open>threadIdx.x = 0\<close>).
\<close>

definition warps_of :: "dim3 \<Rightarrow> dim3 \<Rightarrow> thread_coords list" where
  "warps_of grid block =
     concat (map (\<lambda>by. concat (map (\<lambda>ty. map (\<lambda>bx.
       \<lparr>gridDim = grid, blockDim = block,
        blockIdx = \<lparr>dim_x = bx, dim_y = by\<rparr>, threadIdx = \<lparr>dim_x = 0, dim_y = ty\<rparr>\<rparr>)
       [0..<dim_x grid]) [0..<dim_y block])) [0..<dim_y grid])"

section \<open>The host side\<close>

text \<open>
  Modelled from the spec: \<^verbatim>\<open>util::div_rounding_up_safe\<close> of
  \<^verbatim>\<open>utilities/integer_utils.hpp\<close>, the quotient rounded up.
\<close>

definition div_rounding_up_safe :: "nat \<Rightarrow> nat \<Rightarrow> nat" where
  "div_rounding_up_safe dividend divisor =
     dividend div divisor + (if dividend mod divisor \<noteq> 0 then 1 else 0)"

text \<open>
  \<^verbatim>\<open>launch_kernel::operator()\<close>, with its two launch extents as definitions of their
  own: the value kernel always, the validity kernel and the
  copy of the device null counts back to the host only if the vector of null counts is not
  empty; \<^verbatim>\<open>rmm::device_vector\<close> zero-initialises the device counts.
\<close>

definition dimBlock :: dim3 where
  "dimBlock = \<lparr>dim_x = WARP_SIZE, dim_y = WARP_SIZE\<rparr>"

definition dimGrid :: "'a table \<Rightarrow> dim3" where
  "dimGrid input =
     \<lparr>dim_x = min (div_rounding_up_safe (num_columns input) WARP_SIZE) MAX_GRID_SIZE,
      dim_y = min (div_rounding_up_safe (num_rows input) WARP_SIZE) MAX_GRID_SIZE\<rparr>"

definition launch_kernel ::
  "'a table \<Rightarrow> 'a table \<Rightarrow> int list \<Rightarrow> ('a table \<times> int list) option"
where
  "launch_kernel input output null_counts =
     Option.bind (collect_writes (gpu_transpose input) (threads_of (dimGrid input) dimBlock))
       (\<lambda>ws.
          let output' = fst (apply_writes ws (output, []))
          in if null_counts \<noteq> []
             then
               let d_null_counts = replicate (length null_counts) 0
               in Option.bind
                    (collect_writes (gpu_transpose_valids input) (warps_of (dimGrid input) dimBlock))
                    (\<lambda>vs. Some (apply_writes vs (output', d_null_counts)))
             else Some (output', null_counts))"

text \<open>
  \<^verbatim>\<open>detail::transpose\<close> (named \<open>transpose_table\<close> here, apart from the list
  function of the library). The result is \<open>None\<close> if a kernel does not return,
  \<open>Some (Inl e)\<close> if a precondition check throws, and \<open>Some (Inr output)\<close> otherwise.
\<close>

definition set_null_counts :: "'a table \<Rightarrow> int list \<Rightarrow> nat \<Rightarrow> 'a table" where
  "set_null_counts output null_counts output_ncols =
     fold (\<lambda>i out. out[i := (out ! i)\<lparr>null_count := null_counts ! i\<rparr>]) [0..<output_ncols] output"

definition transpose_table :: "'a table \<Rightarrow> 'a device_memory_resource \<Rightarrow> (error + 'a table) option" where
  "transpose_table input mr =
     (let input_ncols = num_columns input;
          input_nrows = num_rows input
      in if input_ncols = 0 \<or> input_nrows = 0 then Some (Inr [])
         else
           let first = column input 0;
               dtype = dtype first
           in if \<not> list_all (\<lambda>col. dtype = column.dtype col) input then Some (Inl TypeMismatch)
              else if \<not> is_fixed_width dtype then Some (Inl UnsupportedType)
              else
                let has_null = has_nulls input;
                    allocation_policy = (if has_null then ALWAYS else NEVER);
                    output_ncols = input_nrows;
                    output_nrows = input_ncols;
                    null_counts = replicate (if has_null then output_ncols else 0) (0::int);
                    out_columns = map (allocate_like first output_nrows allocation_policy mr)
                                    [0..<output_ncols]
                in Option.bind (launch_kernel input out_columns null_counts)
                     (\<lambda>(output, null_counts').
                        Some (Inr (if has_null
                                   then set_null_counts output null_counts' output_ncols
                                   else output))))"

section \<open>The host side with its device effects\<close>

text \<open>
  What the host code does to the device, in the order in which it does it: a device
  allocation through the memory resource (\<^verbatim>\<open>allocate_like\<close> for output column
  \<open>k\<close>), the creation of a device view of a table, the device vector of null counts, a
  kernel launch with its grid and block, the copy of the null counts back to the host and
  the wait for the stream. The tracing calls \<^verbatim>\<open>nvtx::range_push\<close> and
  \<^verbatim>\<open>nvtx::range_pop\<close> do not touch the device and are left out.
\<close>

datatype kernel = GpuTranspose | GpuTransposeValids

datatype device_effect =
    DeviceAllocation nat
  | DeviceViewCreate
  | DeviceVector nat
  | KernelLaunch kernel dim3 dim3
  | MemcpyAsync
  | StreamSynchronize

text \<open>
  \<^verbatim>\<open>launch_kernel::operator()\<close> and \<^verbatim>\<open>detail::transpose\<close> once more, statement
  by statement, now also returning the effects performed so far: \<open>trace\<close> is extended
  where the source reaches a statement with a device effect, and a precondition check that
  throws returns the trace as it is at that point.
\<close>

definition launch_kernel_traced ::
  "'a table \<Rightarrow> 'a table \<Rightarrow> int list \<Rightarrow> device_effect list
     \<Rightarrow> (device_effect list \<times> 'a table \<times> int list) option"
where
  "launch_kernel_traced input output null_counts trace =
     (let trace1 = trace @ [DeviceViewCreate, DeviceViewCreate];
          trace2 = trace1 @ [KernelLaunch GpuTranspose (dimGrid input) dimBlock]
      in Option.bind (collect_writes (gpu_transpose input) (threads_of (dimGrid input) dimBlock))
           (\<lambda>ws.
              let output' = fst (apply_writes ws (output, []))
              in if null_counts \<noteq> []
                 then
                   let d_null_counts = replicate (length null_counts) 0;
                       trace3 = trace2 @ [DeviceVector (length null_counts)];
                       trace4 = trace3 @ [KernelLaunch GpuTransposeValids (dimGrid input) dimBlock]
                   in Option.bind
                        (collect_writes (gpu_transpose_valids input) (warps_of (dimGrid input) dimBlock))
                        (\<lambda>vs. Some (trace4 @ [MemcpyAsync, StreamSynchronize],
                                     apply_writes vs (output', d_null_counts)))
                 else Some (trace2, output', null_counts)))"

definition transpose_traced ::
  "'a table \<Rightarrow> 'a device_memory_resource \<Rightarrow> (device_effect list \<times> (error + 'a table)) option"
where
  "transpose_traced input mr =
     (let trace = [];
          input_ncols = num_columns input;
          input_nrows = num_rows input
      in if input_ncols = 0 \<or> input_nrows = 0 then Some (trace, Inr [])
         else
           let first = column input 0;
               dtype = dtype first
           in if \<not> list_all (\<lambda>col. dtype = column.dtype col) input
              then Some (trace, Inl TypeMismatch)
              else if \<not> is_fixed_width dtype then Some (trace, Inl UnsupportedType)
              else
                let has_null = has_nulls input;
                    allocation_policy = (if has_null then ALWAYS else NEVER);
                    output_ncols = input_nrows;
                    output_nrows = input_ncols;
                    null_counts = replicate (if has_null then output_ncols else 0) (0::int);
                    out_columns = map (allocate_like first output_nrows allocation_policy mr)
                                    [0..<output_ncols];
                    trace' = trace @ map DeviceAllocation [0..<output_ncols]
                in Option.bind (launch_kernel_traced input out_columns null_counts trace')
                     (\<lambda>(trace'', output, null_counts').
                        Some (trace'',
                              Inr (if has_null
                                   then set_null_counts output null_counts' output_ncols
                                   else output))))"

section \<open>Closed forms of what the kernels write\<close>

text \<open>
  The definitions of this section are not part of the program: they describe, without
  loops, the writes of the two kernels and the memory they leave, and the lemmas below
  prove that the program's loops and launches compute exactly these.

  The indices visited by a loop \<^verbatim>\<open>for (k = start; k < bound; k += stride)\<close>.
\<close>

function strided :: "nat \<Rightarrow> nat \<Rightarrow> nat \<Rightarrow> nat list" where
  "strided start stride bound =
     (if start < bound \<and> 0 < stride then start # strided (start + stride) stride bound else [])"
  by pat_completeness auto
termination
  by (relation "measure (\<lambda>(start, stride, bound). bound - start)") auto

declare strided.simps [simp del]

text \<open>The stores of one thread of the value kernel, and of all threads of a launch.\<close>

definition thread_stores :: "'a table \<Rightarrow> nat \<Rightarrow> nat \<Rightarrow> nat \<Rightarrow> nat \<Rightarrow> 'a device_write list" where
  "thread_stores input stride_x stride_y x y =
     concat (map (\<lambda>i. map (\<lambda>j. SetElement j i (element (column input i) j))
                          (strided y stride_y (num_rows input)))
                 (strided x stride_x (num_columns input)))"

definition kernel_stores :: "'a table \<Rightarrow> nat \<Rightarrow> nat \<Rightarrow> 'a device_write list" where
  "kernel_stores input stride_x stride_y =
     concat (map (\<lambda>y. concat (map (\<lambda>x. thread_stores input stride_x stride_y x y) [0..<stride_x]))
               [0..<stride_y])"

text \<open>The output cells \<open>(j, i)\<close> that a list of writes stores elements to.\<close>

fun stored_cell :: "'a device_write \<Rightarrow> (nat \<times> nat) list" where
  "stored_cell (SetElement j i v) = [(j, i)]"
| "stored_cell (SetMaskWord j w r) = []"
| "stored_cell (AtomicAdd j n) = []"

definition stored_cells :: "'a device_write list \<Rightarrow> (nat \<times> nat) list" where
  "stored_cells ws = concat (map stored_cell ws)"

text \<open>
  For the band of input columns \<open>b, \<dots>, b + 31\<close>: the vote of the lanes whose column
  exists, the vote of the lanes whose column exists and is valid at row \<open>j\<close>, the number
  of nulls the warp adds for the band, and the writes of a warp for the band.
\<close>

definition band_active :: "'a table \<Rightarrow> nat \<Rightarrow> bitmask_type" where
  "band_active input b = horner_sum of_bool 2 (map (\<lambda>l. b + l < num_columns input) lanes)"

definition band_word :: "'a table \<Rightarrow> nat \<Rightarrow> nat \<Rightarrow> bitmask_type" where
  "band_word input b j =
     horner_sum of_bool 2
       (map (\<lambda>l. b + l < num_columns input \<and> is_valid (column input (b + l)) j) lanes)"

definition band_nulls :: "'a table \<Rightarrow> nat \<Rightarrow> nat \<Rightarrow> int" where
  "band_nulls input b j = popc (band_active input b) - popc (band_word input b j)"

definition band_writes :: "'a table \<Rightarrow> nat \<Rightarrow> nat \<Rightarrow> nat \<Rightarrow> 'a device_write list" where
  "band_writes input stride_y y b =
     concat (map (\<lambda>j. [SetMaskWord j (word_index b) (band_word input b j),
                        AtomicAdd j (popc (band_active input b) - popc (band_word input b j))])
               (strided y stride_y (num_rows input)))"

text \<open>
  The mask word indices handled by the warps of one block row, and the writes of all warps
  of a launch of the validity kernel.
\<close>

definition word_indices :: "nat \<Rightarrow> nat \<Rightarrow> nat list" where
  "word_indices G n = concat (map (\<lambda>bx. strided bx G n) [0..<G])"

definition valid_writes :: "'a table \<Rightarrow> nat \<Rightarrow> nat \<Rightarrow> 'a device_write list" where
  "valid_writes input G stride_y =
     concat (map (\<lambda>y. concat (map (\<lambda>w. band_writes input stride_y y (32 * w))
                                  (word_indices G (num_bitmask_words (num_columns input)))))
               [0..<stride_y])"

text \<open>
  The memory after a list of mask-word stores and atomic adds: the amount added to slot
  \<open>k\<close>, the mask of output column \<open>k\<close>, and both for all columns and slots.
\<close>

fun added :: "nat \<Rightarrow> 'a device_write \<Rightarrow> int" where
  "added k (AtomicAdd j n) = (if j = k then n else 0)"
| "added k (SetElement j i v) = 0"
| "added k (SetMaskWord j w r) = 0"

definition sum_adds :: "nat \<Rightarrow> 'a device_write list \<Rightarrow> int" where
  "sum_adds k ws = sum_list (map (added k) ws)"

definition mask_after ::
  "(nat \<Rightarrow> nat \<Rightarrow> bitmask_type) \<Rightarrow> nat \<Rightarrow> 'a device_write list \<Rightarrow> bitmask_type list
     \<Rightarrow> bitmask_type list"
where
  "mask_after r k ws m0 =
     map (\<lambda>w. if SetMaskWord k w (r w k) \<in> set ws then r w k else m0 ! w) [0..<length m0]"

definition memory_after ::
  "(nat \<Rightarrow> nat \<Rightarrow> bitmask_type) \<Rightarrow> 'a device_write list \<Rightarrow> 'a table \<times> int list
     \<Rightarrow> 'a table \<times> int list"
where
  "memory_after r ws mem =
     (map (\<lambda>k. (fst mem ! k)\<lparr>null_mask := map_option (mask_after r k ws) (null_mask (fst mem ! k))\<rparr>)
        [0..<length (fst mem)],
      map (\<lambda>k. snd mem ! k + sum_adds k ws) [0..<length (snd mem)])"

text \<open>
  The memory after a list of element stores: the payload buffer of output column \<open>k\<close>,
  and all columns.
\<close>

definition data_after ::
  "(nat \<Rightarrow> nat \<Rightarrow> 'a) \<Rightarrow> nat \<Rightarrow> 'a device_write list \<Rightarrow> 'a column \<Rightarrow> 'a list"
where
  "data_after e k ws c =
     map (\<lambda>p. if offset c \<le> p \<and> SetElement k (p - offset c) (e (p - offset c) k) \<in> set ws
               then e (p - offset c) k else data c ! p)
       [0..<length (data c)]"

definition stores_after ::
  "(nat \<Rightarrow> nat \<Rightarrow> 'a) \<Rightarrow> 'a device_write list \<Rightarrow> 'a table \<times> int list \<Rightarrow> 'a table \<times> int list"
where
  "stores_after e ws mem =
     (map (\<lambda>k. (fst mem ! k)\<lparr>data := data_after e k ws (fst mem ! k)\<rparr>) [0..<length (fst mem)],
      snd mem)"

text \<open>What \<^verbatim>\<open>launch_kernel\<close> leaves, and the transposed table in closed form.\<close>

definition launch_result :: "'a table \<Rightarrow> 'a table \<Rightarrow> int list \<Rightarrow> 'a table \<times> int list" where
  "launch_result input output null_counts =
     (let sx = 32 * dim_x (dimGrid input); sy = 32 * dim_y (dimGrid input);
          output' = fst (apply_writes (kernel_stores input sx sy) (output, []))
      in if null_counts \<noteq> []
         then apply_writes (valid_writes input (dim_x (dimGrid input)) sy)
                (output', replicate (length null_counts) 0)
         else (output', null_counts))"

definition transposed :: "'a table \<Rightarrow> 'a table" where
  "transposed input =
     map (\<lambda>j. \<lparr>dtype = dtype (column input 0),
               csize = num_columns input,
               data = map (\<lambda>i. element (column input i) j) [0..<num_columns input],
               null_mask =
                 (if has_nulls input
                  then Some (map (\<lambda>w. band_word input (32 * w) j)
                               [0..<num_bitmask_words (num_columns input)])
                  else None),
               null_count =
                 (if has_nulls input
                  then int (length (filter (\<lambda>i. \<not> is_valid (column input i) j)
                                      [0..<num_columns input]))
                  else 0),
               offset = 0\<rparr>)
       [0..<num_rows input]"

section \<open>Example tables\<close>

text \<open>
  Two columns of three rows with the values 1, 2, 3 and 4, 5, 6: without nulls, and with
  row 1 of column 0 null; a table of one column without rows; a table of two columns of
  different types and a table of one column of variable-width type; a memory resource
  whose fresh memory is zero.
\<close>

definition example_input :: "int table" where
  "example_input =
     [\<lparr>dtype = INT32, csize = 3, data = [1, 2, 3], null_mask = None, null_count = 0, offset = 0\<rparr>,
      \<lparr>dtype = INT32, csize = 3, data = [4, 5, 6], null_mask = None, null_count = 0, offset = 0\<rparr>]"

definition example_input_nulls :: "int table" where
  "example_input_nulls =
     [\<lparr>dtype = INT32, csize = 3, data = [1, 2, 3], null_mask = Some [5], null_count = 1, offset = 0\<rparr>,
      \<lparr>dtype = INT32, csize = 3, data = [4, 5, 6], null_mask = None, null_count = 0, offset = 0\<rparr>]"

definition example_no_rows :: "int table" where
  "example_no_rows =
     [\<lparr>dtype = INT32, csize = 0, data = [], null_mask = None, null_count = 0, offset = 0\<rparr>]"

definition example_mixed_types :: "int table" where
  "example_mixed_types =
     [\<lparr>dtype = INT32, csize = 1, data = [1], null_mask = None, null_count = 0, offset = 0\<rparr>,
      \<lparr>dtype = INT64, csize = 1, data = [2], null_mask = None, null_count = 0, offset = 0\<rparr>]"

definition example_strings :: "int table" where
  "example_strings =
     [\<lparr>dtype = STRING, csize = 1, data = [1], null_mask = None, null_count = 0, offset = 0\<rparr>]"

definition example_mr :: "int device_memory_resource" where
  "example_mr = \<lparr>fresh_data = (\<lambda>k i. 0), fresh_mask = (\<lambda>k i. 0)\<rparr>"

section \<open>The strided loops\<close>

lemma set_strided:
  "0 < s \<Longrightarrow> set (strided a s n) = {i. a \<le> i \<and> i < n \<and> (i - a) mod s = 0}"
proof (induction a s n rule: strided.induct)
  case (1 a s n)
  show ?case
  proof (cases "a < n")
    case True
    with 1 have IH: "set (strided (a + s) s n) = {i. a + s \<le> i \<and> i < n \<and> (i - (a + s)) mod s = 0}"
      by simp
    have "{i. a \<le> i \<and> i < n \<and> (i - a) mod s = 0} =
          insert a {i. a + s \<le> i \<and> i < n \<and> (i - (a + s)) mod s = 0}" (is "?L = ?R")
    proof (intro set_eqI iffI)
      fix i assume "i \<in> ?L"
      then have i: "a \<le> i" "i < n" "(i - a) mod s = 0" by auto
      show "i \<in> ?R"
      proof (cases "i = a")
        case False
        with i have "0 < i - a" by simp
        with i(3) \<open>0 < s\<close> have "s \<le> i - a"
          by (metis mod_less not_le less_numeral_extra(3))
        moreover from this i(3) have "(i - a - s) mod s = 0"
          by (simp add: le_mod_geq)
        ultimately have "a + s \<le> i" "(i - (a + s)) mod s = 0"
          using i(1) by (simp_all add: diff_diff_left)
        with i show ?thesis by simp
      qed simp
    next
      fix i assume "i \<in> ?R"
      then consider "i = a" | "a + s \<le> i" "i < n" "(i - (a + s)) mod s = 0" by auto
      then show "i \<in> ?L"
      proof cases
        case 1 with True show ?thesis by simp
      next
        case 2
        then have "(i - a) mod s = (i - (a + s) + s) mod s" by simp
        also have "\<dots> = 0" using 2(3) by simp
        finally show ?thesis using 2 by simp
      qed
    qed
    with IH True 1(2) show ?thesis
      by (subst strided.simps) simp
  next
    case False
    then show ?thesis by (subst strided.simps) auto
  qed
qed

lemma distinct_strided: "distinct (strided a s n)"
proof (induction a s n rule: strided.induct)
  case (1 a s n)
  show ?case
  proof (cases "a < n \<and> 0 < s")
    case True
    with 1 have "distinct (strided (a + s) s n)" by simp
    moreover from True have "a \<notin> set (strided (a + s) s n)"
      by (simp add: set_strided)
    ultimately show ?thesis using True by (subst strided.simps) simp
  next
    case False
    then show ?thesis by (subst strided.simps) auto
  qed
qed

lemma strided_mem_mod:
  assumes "0 < s" "a < s" "i \<in> set (strided a s n)"
  shows "i mod s = a" "i < n"
proof -
  from assms have i: "a \<le> i" "i < n" "(i - a) mod s = 0" by (auto simp: set_strided)
  then have "s dvd (i - a)" by auto
  then obtain k where "i - a = s * k" ..
  with i(1) have "i = a + s * k" by simp
  with assms(2) show "i mod s = a" by simp
  from i show "i < n" by simp
qed

lemma strided_mem_self:
  assumes "0 < s" "i < n"
  shows "i \<in> set (strided (i mod s) s n)"
proof -
  have "i mod s \<le> i" by simp
  moreover have "(i - i mod s) mod s = 0"
    by (simp add: minus_mod_eq_mult_div)
  ultimately show ?thesis using assms by (simp add: set_strided)
qed

lemma gpu_transpose_for_j_eq:
  "0 < stride_y \<Longrightarrow>
   gpu_transpose_for_j input stride_y i y =
     Some (map (\<lambda>j. SetElement j i (element (column input i) j))
             (strided y stride_y (num_rows input)))"
proof (induction y stride_y "num_rows input" rule: strided.induct)
  case (1 y stride_y)
  show ?case
  proof (cases "y < num_rows input")
    case True
    with 1 show ?thesis
      by (subst gpu_transpose_for_j.simps, subst strided.simps) simp
  next
    case False
    then show ?thesis
      by (subst gpu_transpose_for_j.simps, subst strided.simps) simp
  qed
qed

lemma gpu_transpose_for_i_eq:
  "0 < stride_x \<Longrightarrow> 0 < stride_y \<Longrightarrow>
   gpu_transpose_for_i input stride_x stride_y y x = Some (thread_stores input stride_x stride_y x y)"
proof (induction x stride_x "num_columns input" rule: strided.induct)
  case (1 x stride_x)
  show ?case
  proof (cases "x < num_columns input")
    case True
    with 1 show ?thesis
      by (subst gpu_transpose_for_i.simps, subst thread_stores_def, subst strided.simps)
         (simp add: gpu_transpose_for_j_eq thread_stores_def)
  next
    case False
    then show ?thesis
      by (subst gpu_transpose_for_i.simps, subst thread_stores_def, subst strided.simps) simp
  qed
qed

section \<open>The launch of the value kernel\<close>

lemma collect_writes_Some:
  "(\<And>t. t \<in> set ts \<Longrightarrow> body t = Some (f t)) \<Longrightarrow>
   collect_writes body ts = Some (concat (map f ts))"
  by (induction ts) simp_all

lemma concat_map_concat:
  "concat (map f (concat xss)) = concat (map (\<lambda>xs. concat (map f xs)) xss)"
  by (induction xss) simp_all

lemma concat_map_blocks:
  "concat (map (\<lambda>b. concat (map (\<lambda>t. g (b * B + t)) [0..<B])) [0..<G]) =
   concat (map g [0..<G * B])"
proof (induction G)
  case 0
  show ?case by simp
next
  case (Suc G)
  have "[0..<G * B + B] = [0..<G * B] @ [G * B..<G * B + B]"
    by (rule upt_add_eq_append) simp
  moreover have "[G * B..<G * B + B] = map (\<lambda>t. G * B + t) [0..<B]"
    using map_add_upt [of "G * B" B] by (simp only: add.commute)
  ultimately have "map g [0..<Suc G * B] =
             map g [0..<G * B] @ map (\<lambda>t. g (G * B + t)) [0..<B]"
    by (simp only: mult_Suc add.commute [of B] map_append map_map comp_def)
  then have "concat (map g [0..<Suc G * B]) =
             concat (map g [0..<G * B]) @ concat (map (\<lambda>t. g (G * B + t)) [0..<B])"
    by (simp only: concat_append)
  with Suc show ?case by simp
qed

lemma threads_of_cases:
  assumes "t \<in> set (threads_of grid block)"
  obtains bx "by" tx ty where
    "t = \<lparr>gridDim = grid, blockDim = block,
          blockIdx = \<lparr>dim_x = bx, dim_y = by\<rparr>, threadIdx = \<lparr>dim_x = tx, dim_y = ty\<rparr>\<rparr>"
    "bx < dim_x grid" "by < dim_y grid" "tx < dim_x block" "ty < dim_y block"
  using assms unfolding threads_of_def by auto

lemma gpu_transpose_thread:
  assumes "0 < dim_x block * dim_x grid" "0 < dim_y block * dim_y grid"
  shows "gpu_transpose input
           \<lparr>gridDim = grid, blockDim = block,
            blockIdx = \<lparr>dim_x = bx, dim_y = by\<rparr>, threadIdx = \<lparr>dim_x = tx, dim_y = ty\<rparr>\<rparr> =
         Some (thread_stores input (dim_x block * dim_x grid) (dim_y block * dim_y grid)
                 (bx * dim_x block + tx) (by * dim_y block + ty))"
  using assms by (simp add: gpu_transpose_def gpu_transpose_for_i_eq)

lemma gpu_transpose_launch:
  assumes "0 < dim_x block * dim_x grid" "0 < dim_y block * dim_y grid"
  shows "collect_writes (gpu_transpose input) (threads_of grid block) =
         Some (kernel_stores input (dim_x block * dim_x grid) (dim_y block * dim_y grid))"
proof -
  let ?sx = "dim_x block * dim_x grid" and ?sy = "dim_y block * dim_y grid"
  let ?f = "\<lambda>t. thread_stores input ?sx ?sy
                  (dim_x (blockIdx t) * dim_x block + dim_x (threadIdx t))
                  (dim_y (blockIdx t) * dim_y block + dim_y (threadIdx t))"
  have "gpu_transpose input t = Some (?f t)" if "t \<in> set (threads_of grid block)" for t
  proof -
    from that obtain bx "by" tx ty where
      "t = \<lparr>gridDim = grid, blockDim = block,
            blockIdx = \<lparr>dim_x = bx, dim_y = by\<rparr>, threadIdx = \<lparr>dim_x = tx, dim_y = ty\<rparr>\<rparr>"
      by (rule threads_of_cases)
    then show ?thesis
      using gpu_transpose_thread [OF assms, of input bx "by" tx ty] by simp
  qed
  then have "collect_writes (gpu_transpose input) (threads_of grid block) =
             Some (concat (map ?f (threads_of grid block)))"
    by (rule collect_writes_Some)
  also have "concat (map ?f (threads_of grid block)) =
        concat (map (\<lambda>by. concat (map (\<lambda>ty.
          concat (map (\<lambda>bx. concat (map (\<lambda>tx.
            thread_stores input ?sx ?sy (bx * dim_x block + tx) (by * dim_y block + ty))
          [0..<dim_x block])) [0..<dim_x grid])) [0..<dim_y block])) [0..<dim_y grid])"
    unfolding threads_of_def by (simp only: concat_map_concat map_map comp_def thread_coords.simps dim3.simps)
  also have "\<dots> = concat (map (\<lambda>by. concat (map (\<lambda>ty.
          concat (map (\<lambda>x. thread_stores input ?sx ?sy x (by * dim_y block + ty))
          [0..<dim_x grid * dim_x block])) [0..<dim_y block])) [0..<dim_y grid])"
  proof -
    have "\<And>y. concat (map (\<lambda>bx. concat (map (\<lambda>tx.
            thread_stores input ?sx ?sy (bx * dim_x block + tx) y)
          [0..<dim_x block])) [0..<dim_x grid]) =
          concat (map (\<lambda>x. thread_stores input ?sx ?sy x y) [0..<dim_x grid * dim_x block])"
      by (rule concat_map_blocks)
    then show ?thesis by (simp only:)
  qed
  also have "\<dots> = concat (map (\<lambda>y.
          concat (map (\<lambda>x. thread_stores input ?sx ?sy x y)
          [0..<dim_x grid * dim_x block])) [0..<dim_y grid * dim_y block])"
    by (rule concat_map_blocks)
  finally show ?thesis
    by (simp add: kernel_stores_def mult.commute)
qed

section \<open>Every output cell is stored exactly once\<close>

lemma distinct_concat_map:
  assumes "distinct ts"
    and "\<And>t. t \<in> set ts \<Longrightarrow> distinct (f t)"
    and "\<And>t u. t \<in> set ts \<Longrightarrow> u \<in> set ts \<Longrightarrow> t \<noteq> u \<Longrightarrow> set (f t) \<inter> set (f u) = {}"
  shows "distinct (concat (map f ts))"
  using assms
proof (induction ts)
  case Nil
  show ?case by simp
next
  case (Cons t ts)
  have "distinct (concat (map f ts))"
    using Cons by simp
  moreover have "distinct (f t)" using Cons.prems by simp
  moreover have "set (f t) \<inter> set (f u) = {}" if "u \<in> set ts" for u
    using Cons.prems(1) Cons.prems(3) [of t u] that by auto
  ultimately show ?case by auto
qed

lemma stored_cells_concat: "stored_cells (concat xss) = concat (map stored_cells xss)"
  by (induction xss) (simp_all add: stored_cells_def)

lemma stored_cells_row:
  "stored_cells (map (\<lambda>j. SetElement j i (v j)) js) = map (\<lambda>j. (j, i)) js"
  by (induction js) (simp_all add: stored_cells_def)

lemma stored_cells_thread:
  "stored_cells (thread_stores input sx sy x y) =
   concat (map (\<lambda>i. map (\<lambda>j. (j, i)) (strided y sy (num_rows input)))
             (strided x sx (num_columns input)))"
  by (simp add: thread_stores_def stored_cells_concat comp_def stored_cells_row)

lemma set_stored_cells_thread:
  "set (stored_cells (thread_stores input sx sy x y)) =
   set (strided y sy (num_rows input)) \<times> set (strided x sx (num_columns input))"
  by (auto simp: stored_cells_thread)

lemma distinct_stored_cells_thread:
  "distinct (stored_cells (thread_stores input sx sy x y))"
  unfolding stored_cells_thread
  by (rule distinct_concat_map) (auto simp: distinct_strided distinct_map inj_on_def)

lemma in_concat2I:
  "x \<in> set xs \<Longrightarrow> y \<in> set ys \<Longrightarrow> c \<in> set (f x y) \<Longrightarrow>
   c \<in> set (concat (map (\<lambda>y. concat (map (\<lambda>x. f x y) xs)) ys))"
  by auto

lemma in_concat2D:
  "c \<in> set (concat (map (\<lambda>y. concat (map (\<lambda>x. f x y) xs)) ys)) \<Longrightarrow>
   \<exists>y\<in>set ys. \<exists>x\<in>set xs. c \<in> set (f x y)"
  by auto

lemma stored_cells_kernel:
  "stored_cells (kernel_stores input sx sy) =
   concat (map (\<lambda>y. concat (map (\<lambda>x. stored_cells (thread_stores input sx sy x y)) [0..<sx]))
             [0..<sy])"
  by (simp add: kernel_stores_def stored_cells_concat comp_def)

lemma thread_cells_disjoint:
  assumes "0 < sx" "0 < sy" "x < sx" "x' < sx" "y < sy" "y' < sy" "x \<noteq> x' \<or> y \<noteq> y'"
  shows "set (stored_cells (thread_stores input sx sy x y)) \<inter>
         set (stored_cells (thread_stores input sx sy x' y')) = {}"
proof -
  have False if "c \<in> set (stored_cells (thread_stores input sx sy x y))"
    and "c \<in> set (stored_cells (thread_stores input sx sy x' y'))" for c
  proof -
    obtain j i where c: "c = (j, i)" by (cases c)
    from that c have i: "i \<in> set (strided x sx (num_columns input))"
        "i \<in> set (strided x' sx (num_columns input))"
      and j: "j \<in> set (strided y sy (num_rows input))"
        "j \<in> set (strided y' sy (num_rows input))"
      by (simp_all add: set_stored_cells_thread)
    from i assms have "x = x'"
      using strided_mem_mod(1) [of sx x i] strided_mem_mod(1) [of sx x' i] by simp
    moreover from j assms have "y = y'"
      using strided_mem_mod(1) [of sy y j] strided_mem_mod(1) [of sy y' j] by simp
    ultimately show False using assms(7) by simp
  qed
  then show ?thesis by blast
qed

lemma distinct_stored_cells_kernel:
  assumes "0 < sx" "0 < sy"
  shows "distinct (stored_cells (kernel_stores input sx sy))"
  unfolding stored_cells_kernel
proof (rule distinct_concat_map)
  show "distinct [0..<sy]" by simp
next
  fix y assume y: "y \<in> set [0..<sy]"
  show "distinct (concat (map (\<lambda>x. stored_cells (thread_stores input sx sy x y)) [0..<sx]))"
  proof (rule distinct_concat_map)
    fix x x' assume "x \<in> set [0..<sx]" "x' \<in> set [0..<sx]" "x \<noteq> x'"
    with y show "set (stored_cells (thread_stores input sx sy x y)) \<inter>
               set (stored_cells (thread_stores input sx sy x' y)) = {}"
      using assms by (intro thread_cells_disjoint) simp_all
  qed (simp_all add: distinct_stored_cells_thread)
next
  fix y y' assume yy: "y \<in> set [0..<sy]" "y' \<in> set [0..<sy]" "y \<noteq> y'"
  have disj: "c \<notin> set (stored_cells (thread_stores input sx sy x' y'))"
    if "x < sx" "x' < sx" "c \<in> set (stored_cells (thread_stores input sx sy x y))" for x x' c
    using thread_cells_disjoint [of sx sy x x' y y' input] assms yy that by auto
  then have False
    if "c \<in> set (concat (map (\<lambda>x. stored_cells (thread_stores input sx sy x y)) [0..<sx]))"
      and "c \<in> set (concat (map (\<lambda>x. stored_cells (thread_stores input sx sy x y')) [0..<sx]))"
    for c
  proof -
    from that(1) obtain x where "x < sx" "c \<in> set (stored_cells (thread_stores input sx sy x y))"
      by auto
    moreover from that(2) obtain x' where "x' < sx"
        "c \<in> set (stored_cells (thread_stores input sx sy x' y'))"
      by auto
    ultimately show False using disj by blast
  qed
  then show "set (concat (map (\<lambda>x. stored_cells (thread_stores input sx sy x y)) [0..<sx])) \<inter>
             set (concat (map (\<lambda>x. stored_cells (thread_stores input sx sy x y')) [0..<sx])) = {}"
    by blast
qed

lemma set_stored_cells_kernel:
  assumes "0 < sx" "0 < sy"
  shows "set (stored_cells (kernel_stores input sx sy)) =
         {0..<num_rows input} \<times> {0..<num_columns input}"
proof (intro set_eqI iffI)
  fix c assume "c \<in> set (stored_cells (kernel_stores input sx sy))"
  then have "\<exists>y\<in>set [0..<sy]. \<exists>x\<in>set [0..<sx].
               c \<in> set (stored_cells (thread_stores input sx sy x y))"
    unfolding stored_cells_kernel by (rule in_concat2D)
  then obtain x y where "c \<in> set (stored_cells (thread_stores input sx sy x y))"
    by blast
  then obtain j i where "c = (j, i)" "j \<in> set (strided y sy (num_rows input))"
      "i \<in> set (strided x sx (num_columns input))"
    unfolding set_stored_cells_thread by blast
  then show "c \<in> {0..<num_rows input} \<times> {0..<num_columns input}"
    using assms by (simp add: set_strided)
next
  fix c assume "c \<in> {0..<num_rows input} \<times> {0..<num_columns input}"
  then obtain j i where c: "c = (j, i)" "j < num_rows input" "i < num_columns input"
    by auto
  have "i mod sx \<in> set [0..<sx]" "j mod sy \<in> set [0..<sy]"
    using assms by simp_all
  moreover have "c \<in> set (stored_cells (thread_stores input sx sy (i mod sx) (j mod sy)))"
    using c assms by (simp add: set_stored_cells_thread strided_mem_self)
  ultimately show "c \<in> set (stored_cells (kernel_stores input sx sy))"
    unfolding stored_cells_kernel by (rule in_concat2I)
qed

lemma kernel_stores_form:
  assumes "w \<in> set (kernel_stores input sx sy)"
  shows "\<exists>j i. w = SetElement j i (element (column input i) j)"
proof -
  from assms have "\<exists>y\<in>set [0..<sy]. \<exists>x\<in>set [0..<sx].
                     w \<in> set (thread_stores input sx sy x y)"
    unfolding kernel_stores_def by (rule in_concat2D)
  then obtain x y where "w \<in> set (thread_stores input sx sy x y)"
    by blast
  then show ?thesis
    unfolding thread_stores_def by auto
qed

lemma kernel_stores_mem:
  assumes "0 < sx" "0 < sy" "i < num_columns input" "j < num_rows input"
  shows "SetElement j i (element (column input i) j) \<in> set (kernel_stores input sx sy)"
proof -
  have "i mod sx \<in> set [0..<sx]" "j mod sy \<in> set [0..<sy]"
    using assms by simp_all
  moreover have "SetElement j i (element (column input i) j)
                 \<in> set (thread_stores input sx sy (i mod sx) (j mod sy))"
  proof -
    have "i \<in> set (strided (i mod sx) sx (num_columns input))"
         "j \<in> set (strided (j mod sy) sy (num_rows input))"
      using assms by (simp_all add: strided_mem_self)
    then show ?thesis
      unfolding thread_stores_def by auto
  qed
  ultimately show ?thesis
    unfolding kernel_stores_def by (rule in_concat2I)
qed

section \<open>The memory after the value kernel\<close>

lemma apply_writes_snoc:
  "apply_writes (ws @ [w]) mem = apply_write w (apply_writes ws mem)"
  by (simp add: apply_writes_def)

lemma apply_writes_elements:
  assumes "\<forall>w\<in>set ws. \<exists>j i. w = SetElement j i (e i j)"
  shows "\<exists>out'. apply_writes ws (out, nc) = (out', nc) \<and> length out' = length out \<and>
           (\<forall>k<length out. \<exists>d. out' ! k = (out ! k)\<lparr>data := d\<rparr> \<and>
              length d = length (data (out ! k)) \<and>
              (\<forall>i. offset (out ! k) + i < length d \<longrightarrow>
                 d ! (offset (out ! k) + i) =
                   (if SetElement k i (e i k) \<in> set ws then e i k
                    else data (out ! k) ! (offset (out ! k) + i))))"
  using assms
proof (induction ws rule: rev_induct)
  case Nil
  have "\<exists>d. out ! k = (out ! k)\<lparr>data := d\<rparr> \<and> length d = length (data (out ! k)) \<and>
            (\<forall>i. offset (out ! k) + i < length d \<longrightarrow>
                 d ! (offset (out ! k) + i) = data (out ! k) ! (offset (out ! k) + i))" for k
    by (rule exI [of _ "data (out ! k)"]) simp
  then show ?case by (simp add: apply_writes_def)
next
  case (snoc w ws)
  from snoc.prems obtain j i0 where w: "w = SetElement j i0 (e i0 j)"
    by auto
  from snoc obtain out1 where out1: "apply_writes ws (out, nc) = (out1, nc)"
      "length out1 = length out"
    and cols: "\<And>k. k < length out \<Longrightarrow> \<exists>d. out1 ! k = (out ! k)\<lparr>data := d\<rparr> \<and>
              length d = length (data (out ! k)) \<and>
              (\<forall>i. offset (out ! k) + i < length d \<longrightarrow>
                 d ! (offset (out ! k) + i) =
                   (if SetElement k i (e i k) \<in> set ws then e i k
                    else data (out ! k) ! (offset (out ! k) + i)))"
    by auto
  let ?out2 = "out1[j := (out1 ! j)\<lparr>data := (data (out1 ! j))[offset (out1 ! j) + i0 := e i0 j]\<rparr>]"
  have res: "apply_writes (ws @ [w]) (out, nc) = (?out2, nc)"
    by (simp add: apply_writes_snoc out1 w)
  have "\<exists>d. ?out2 ! k = (out ! k)\<lparr>data := d\<rparr> \<and>
              length d = length (data (out ! k)) \<and>
              (\<forall>i. offset (out ! k) + i < length d \<longrightarrow>
                 d ! (offset (out ! k) + i) =
                   (if SetElement k i (e i k) \<in> set (ws @ [w]) then e i k
                    else data (out ! k) ! (offset (out ! k) + i)))"
    if k: "k < length out" for k
  proof -
    from cols [OF k] obtain d where d: "out1 ! k = (out ! k)\<lparr>data := d\<rparr>"
        "length d = length (data (out ! k))"
        "\<And>i. offset (out ! k) + i < length d \<Longrightarrow>
                 d ! (offset (out ! k) + i) =
                   (if SetElement k i (e i k) \<in> set ws then e i k
                    else data (out ! k) ! (offset (out ! k) + i))"
      by blast
    show ?thesis
    proof (cases "k = j")
      case False
      with k out1 d w show ?thesis by auto
    next
      case True
      let ?d = "d[offset (out ! k) + i0 := e i0 k]"
      have "?out2 ! k = (out ! k)\<lparr>data := ?d\<rparr>"
        using True k out1 d by simp
      moreover have "length ?d = length (data (out ! k))"
        using d by simp
      moreover have "?d ! (offset (out ! k) + i) =
                   (if SetElement k i (e i k) \<in> set (ws @ [w]) then e i k
                    else data (out ! k) ! (offset (out ! k) + i))"
        if "offset (out ! k) + i < length ?d" for i
        using that d(3) [of i] True w by (cases "i = i0") auto
      ultimately show ?thesis by blast
    qed
  qed
  with res out1 show ?case by simp
qed

lemma value_kernel_result:
  assumes "0 < sx" "0 < sy"
    and "length out = num_rows input"
    and "\<forall>j<num_rows input. offset (out ! j) = 0 \<and> length (data (out ! j)) = num_columns input"
  shows "\<exists>out'. apply_writes (kernel_stores input sx sy) (out, nc) = (out', nc) \<and>
           length out' = num_rows input \<and>
           (\<forall>j<num_rows input. \<exists>d. out' ! j = (out ! j)\<lparr>data := d\<rparr> \<and>
              length d = num_columns input \<and>
              (\<forall>i<num_columns input. d ! i = element (column input i) j))"
proof -
  have "\<forall>w\<in>set (kernel_stores input sx sy).
          \<exists>j i. w = SetElement j i (element (column input i) j)"
    using kernel_stores_form by blast
  from apply_writes_elements [OF this, of out nc]
  obtain out' where out': "apply_writes (kernel_stores input sx sy) (out, nc) = (out', nc)"
      "length out' = length out"
    and cols: "\<And>k. k < length out \<Longrightarrow> \<exists>d. out' ! k = (out ! k)\<lparr>data := d\<rparr> \<and>
              length d = length (data (out ! k)) \<and>
              (\<forall>i. offset (out ! k) + i < length d \<longrightarrow>
                 d ! (offset (out ! k) + i) =
                   (if SetElement k i (element (column input i) k) \<in> set (kernel_stores input sx sy)
                    then element (column input i) k
                    else data (out ! k) ! (offset (out ! k) + i)))"
    by blast
  have "\<exists>d. out' ! j = (out ! j)\<lparr>data := d\<rparr> \<and> length d = num_columns input \<and>
              (\<forall>i<num_columns input. d ! i = element (column input i) j)"
    if j: "j < num_rows input" for j
  proof -
    from j assms(3) have "j < length out" by simp
    from cols [OF this] obtain d where d: "out' ! j = (out ! j)\<lparr>data := d\<rparr>"
        "length d = length (data (out ! j))"
        "\<And>i. offset (out ! j) + i < length d \<Longrightarrow>
                 d ! (offset (out ! j) + i) =
                   (if SetElement j i (element (column input i) j) \<in> set (kernel_stores input sx sy)
                    then element (column input i) j
                    else data (out ! j) ! (offset (out ! j) + i))"
      by blast
    from assms(4) j have o: "offset (out ! j) = 0" "length (data (out ! j)) = num_columns input"
      by simp_all
    have "d ! i = element (column input i) j" if "i < num_columns input" for i
      using d(3) [of i] d(2) o that j kernel_stores_mem [OF assms(1,2) that j] by simp
    with d o show ?thesis by auto
  qed
  with out' assms(3) show ?thesis by simp
qed

section \<open>The warp loop of the validity kernel\<close>

lemma bit_lane_word:
  "bit (horner_sum of_bool 2 (map p lanes) :: bitmask_type) l \<longleftrightarrow> l < 32 \<and> p l"
  by (auto simp: bit_horner_sum_bit_word_iff lanes_def WARP_SIZE_def)

lemma bit_ballot_sync:
  "bit (ballot_sync m E p) l \<longleftrightarrow> l < 32 \<and> bit m l \<and> E l \<and> p l"
  by (simp add: ballot_sync_def bit_lane_word)

lemma bit_band_active: "bit (band_active input b) l \<longleftrightarrow> l < 32 \<and> b + l < num_columns input"
  by (simp add: band_active_def bit_lane_word)

lemma bit_band_word:
  "bit (band_word input b j) l \<longleftrightarrow>
     l < 32 \<and> b + l < num_columns input \<and> is_valid (column input (b + l)) j"
  by (simp add: band_word_def bit_lane_word)

lemma lane0_filter:
  assumes "E 0"
  shows "filter (\<lambda>l. E l \<and> l mod WARP_SIZE = 0) lanes = [0]"
proof -
  have l: "lanes = 0 # [1..<32]"
    by (simp add: lanes_def WARP_SIZE_def upt_conv_Cons)
  have "filter (\<lambda>l. E l \<and> l mod WARP_SIZE = 0) [1..<32] = []"
    by (auto simp: filter_empty_conv WARP_SIZE_def)
  then show ?thesis unfolding l using assms by simp
qed

lemma gpu_transpose_valids_for_j_eq:
  assumes "0 < stride_y" "E 0"
  shows "gpu_transpose_valids_for_j input stride_y i A E y =
     Some (concat (map (\<lambda>j. [SetMaskWord j (word_index (i 0))
                                (ballot_sync A E (\<lambda>l. is_valid (column input (i l)) j)),
                              AtomicAdd j (popc A -
                                popc (ballot_sync A E (\<lambda>l. is_valid (column input (i l)) j)))])
             (strided y stride_y (num_rows input))))"
  using assms(1)
proof (induction y stride_y "num_rows input" rule: strided.induct)
  case (1 y stride_y)
  show ?case
  proof (cases "y < num_rows input")
    case True
    with 1 show ?thesis
      by (subst gpu_transpose_valids_for_j.simps, subst strided.simps)
         (simp add: lane0_filter [of E, OF assms(2)] Let_def)
  next
    case False
    then show ?thesis
      by (subst gpu_transpose_valids_for_j.simps, subst strided.simps) simp
  qed
qed

lemma gpu_transpose_valids_while_eq:
  assumes "0 < stride_x" "0 < stride_y"
    and "\<forall>l. i l < num_columns input \<longrightarrow> E l"
    and "i = (\<lambda>l. b + l)"
    and "A = band_active input b"
  shows "gpu_transpose_valids_while input stride_x stride_y y i A E =
         Some (concat (map (band_writes input stride_y y) (strided b stride_x (num_columns input))))"
  using assms
proof (induction b stride_x "num_columns input" arbitrary: i A E rule: strided.induct)
  case (1 b stride_x)
  let ?E' = "\<lambda>l. E l \<and> i l < num_columns input"
  show ?case
  proof (cases "b < num_columns input")
    case False
    then have "\<not> list_ex ?E' lanes"
      using 1(5) by (auto simp: list_ex_iff)
    with False show ?thesis
      by (subst gpu_transpose_valids_while.simps, subst strided.simps) (simp add: Let_def)
  next
    case True
    have E': "?E' = (\<lambda>l. b + l < num_columns input)"
      using 1(4,5) by auto
    have Einv: "E l" if "b + l < num_columns input" for l
      using 1(4,5) that by auto
    have ex: "list_ex ?E' lanes"
      unfolding E' list_ex_iff using True
      by (intro bexI [of _ 0]) (simp_all add: lanes_def WARP_SIZE_def)
    let ?i' = "\<lambda>l. i l + stride_x"
    let ?A' = "ballot_sync A ?E' (\<lambda>l. ?i' l < num_columns input)"
    have i': "?i' = (\<lambda>l. (b + stride_x) + l)"
      using 1(5) by auto
    have A': "?A' = band_active input (b + stride_x)"
      unfolding E'
      by (rule bit_word_eqI) (auto simp: bit_ballot_sync bit_band_active 1(5) 1(6))
    have inv: "\<forall>l. ?i' l < num_columns input \<longrightarrow> ?E' l"
      using 1(4) by auto
    have rec: "gpu_transpose_valids_while input stride_x stride_y y ?i' ?A' ?E' =
               Some (concat (map (band_writes input stride_y y)
                        (strided (b + stride_x) stride_x (num_columns input))))"
      using True 1(2,3) inv i' A' by (intro 1(1)) simp_all
    have word: "ballot_sync A ?E' (\<lambda>l. is_valid (column input (i l)) j) = band_word input b j" for j
      using Einv
      by (intro bit_word_eqI) (auto simp: bit_ballot_sync bit_band_active bit_band_word 1(5) 1(6))
    have rows: "gpu_transpose_valids_for_j input stride_y i A ?E' y =
                Some (band_writes input stride_y y b)"
    proof -
      have e0: "?E' 0"
        using True 1(5) Einv [of 0] by simp
      have i0: "i 0 = b"
        using 1(5) by simp
      show ?thesis
        unfolding gpu_transpose_valids_for_j_eq [of stride_y ?E', OF 1(3) e0]
        by (simp only: word i0 band_writes_def) (simp only: 1(6))
    qed
    show ?thesis
      using True 1(2) ex
      by (subst gpu_transpose_valids_while.simps, subst strided.simps)
         (simp add: Let_def rows rec)
  qed
qed

section \<open>The launch of the validity kernel\<close>

lemma num_bitmask_words_less: "32 * a < n \<longleftrightarrow> a < num_bitmask_words n"
proof -
  have n: "n = 32 * (n div 32) + n mod 32" by simp
  have m: "n mod 32 < 32" by simp
  show ?thesis
  proof (cases "n mod 32 = 0")
    case True
    then have "num_bitmask_words n = n div 32" by (simp add: num_bitmask_words_def)
    with n True show ?thesis by arith
  next
    case False
    then have "num_bitmask_words n = n div 32 + 1" by (simp add: num_bitmask_words_def)
    with n m False show ?thesis by arith
  qed
qed

lemma strided_scale:
  "strided (32 * a) (32 * s) n = map ((*) 32) (strided a s (num_bitmask_words n))"
proof (induction a s "num_bitmask_words n" rule: strided.induct)
  case (1 a s)
  show ?case
  proof (cases "a < num_bitmask_words n \<and> 0 < s")
    case True
    then have "32 * a < n \<and> 0 < 32 * s"
      by (simp add: num_bitmask_words_less)
    with True 1 show ?thesis
      by (subst strided.simps, subst (2) strided.simps) (simp add: distrib_left)
  next
    case False
    then have "\<not> (32 * a < n \<and> 0 < 32 * s)"
      by (simp add: num_bitmask_words_less)
    with False show ?thesis
      by (subst strided.simps, subst (2) strided.simps) simp
  qed
qed

lemma gpu_transpose_valids_warp:
  assumes "0 < dim_x block * dim_x grid" "0 < dim_y block * dim_y grid"
  shows "gpu_transpose_valids input
           \<lparr>gridDim = grid, blockDim = block,
            blockIdx = \<lparr>dim_x = bx, dim_y = by\<rparr>, threadIdx = \<lparr>dim_x = 0, dim_y = ty\<rparr>\<rparr> =
         Some (concat (map (band_writes input (dim_y block * dim_y grid) (by * dim_y block + ty))
                 (strided (bx * dim_x block) (dim_x block * dim_x grid) (num_columns input))))"
proof -
  have "ballot_sync (- 1) (\<lambda>l. True) (\<lambda>l. bx * dim_x block + l < num_columns input) =
        band_active input (bx * dim_x block)"
    by (rule bit_word_eqI) (auto simp: bit_ballot_sync bit_band_active)
  then show ?thesis
    unfolding gpu_transpose_valids_def Let_def thread_coords.simps dim3.simps
    by (intro gpu_transpose_valids_while_eq assms) simp_all
qed

lemma warps_of_cases:
  assumes "t \<in> set (warps_of grid block)"
  obtains bx "by" ty where
    "t = \<lparr>gridDim = grid, blockDim = block,
          blockIdx = \<lparr>dim_x = bx, dim_y = by\<rparr>, threadIdx = \<lparr>dim_x = 0, dim_y = ty\<rparr>\<rparr>"
  using assms unfolding warps_of_def by auto

lemma gpu_transpose_valids_launch:
  assumes "dim_x block = 32" "0 < dim_x grid" "0 < dim_y block * dim_y grid"
  shows "collect_writes (gpu_transpose_valids input) (warps_of grid block) =
         Some (valid_writes input (dim_x grid) (dim_y block * dim_y grid))"
proof -
  let ?sy = "dim_y block * dim_y grid"
  let ?n = "num_bitmask_words (num_columns input)"
  let ?f = "\<lambda>t. concat (map (\<lambda>w. band_writes input ?sy
                    (dim_y (blockIdx t) * dim_y block + dim_y (threadIdx t)) (32 * w))
                 (strided (dim_x (blockIdx t)) (dim_x grid) ?n))"
  have sx: "0 < dim_x block * dim_x grid"
    using assms by simp
  have "gpu_transpose_valids input t = Some (?f t)" if "t \<in> set (warps_of grid block)" for t
  proof -
    from that obtain bx "by" ty where
      t: "t = \<lparr>gridDim = grid, blockDim = block,
            blockIdx = \<lparr>dim_x = bx, dim_y = by\<rparr>, threadIdx = \<lparr>dim_x = 0, dim_y = ty\<rparr>\<rparr>"
      by (rule warps_of_cases)
    have "strided (bx * dim_x block) (dim_x block * dim_x grid) (num_columns input) =
          map ((*) 32) (strided bx (dim_x grid) ?n)"
      using strided_scale [of bx "dim_x grid" "num_columns input"] assms(1)
      by (simp add: mult.commute)
    then show ?thesis
      unfolding t gpu_transpose_valids_warp [OF sx assms(3)]
      by (simp add: comp_def)
  qed
  then have "collect_writes (gpu_transpose_valids input) (warps_of grid block) =
             Some (concat (map ?f (warps_of grid block)))"
    by (rule collect_writes_Some)
  also have "concat (map ?f (warps_of grid block)) =
        concat (map (\<lambda>by. concat (map (\<lambda>ty.
          concat (map (\<lambda>bx. concat (map (\<lambda>w. band_writes input ?sy (by * dim_y block + ty) (32 * w))
                 (strided bx (dim_x grid) ?n))) [0..<dim_x grid])) [0..<dim_y block])) [0..<dim_y grid])"
    unfolding warps_of_def
    by (simp only: concat_map_concat map_map comp_def thread_coords.simps dim3.simps)
  also have "\<dots> = concat (map (\<lambda>by. concat (map (\<lambda>ty.
          concat (map (\<lambda>w. band_writes input ?sy (by * dim_y block + ty) (32 * w))
                 (word_indices (dim_x grid) ?n))) [0..<dim_y block])) [0..<dim_y grid])"
    unfolding word_indices_def by (simp only: concat_map_concat map_map comp_def)
  also have "\<dots> = concat (map (\<lambda>y.
          concat (map (\<lambda>w. band_writes input ?sy y (32 * w))
                 (word_indices (dim_x grid) ?n))) [0..<dim_y grid * dim_y block])"
    by (rule concat_map_blocks)
  finally show ?thesis
    by (simp only: valid_writes_def mult.commute [of "dim_y grid"])
qed

lemma distinct_word_indices: "0 < G \<Longrightarrow> distinct (word_indices G n)"
  unfolding word_indices_def
proof (rule distinct_concat_map)
  fix t u assume G: "0 < G" and "t \<in> set [0..<G]" "u \<in> set [0..<G]" "t \<noteq> u"
  then have "w \<notin> set (strided u G n)" if "w \<in> set (strided t G n)" for w
    using strided_mem_mod(1) [of G t w n] strided_mem_mod(1) [of G u w n] that by auto
  then show "set (strided t G n) \<inter> set (strided u G n) = {}"
    by blast
qed (simp_all add: distinct_strided)

lemma set_word_indices: "0 < G \<Longrightarrow> set (word_indices G n) = {0..<n}"
proof (intro set_eqI iffI)
  fix w assume "0 < G" "w \<in> set (word_indices G n)"
  then obtain bx where "w \<in> set (strided bx G n)"
    by (auto simp: word_indices_def)
  with \<open>0 < G\<close> show "w \<in> {0..<n}"
    by (simp add: set_strided)
next
  fix w assume G: "0 < G" and "w \<in> {0..<n}"
  then have "w \<in> set (strided (w mod G) G n)" "w mod G \<in> set [0..<G]"
    by (simp_all add: strided_mem_self)
  then show "w \<in> set (word_indices G n)"
    unfolding word_indices_def by auto
qed

lemma word_index_32: "word_index (32 * w) = w"
  by (simp add: word_index_def)

lemma band_writes_form:
  assumes "v \<in> set (band_writes input sy y (32 * w))"
  shows "(\<exists>j. j \<in> set (strided y sy (num_rows input)) \<and>
              v = SetMaskWord j w (band_word input (32 * w) j)) \<or>
         (\<exists>j n. v = AtomicAdd j n)"
  using assms unfolding band_writes_def word_index_32 by auto

lemma valid_writes_form:
  assumes "v \<in> set (valid_writes input G sy)"
  shows "(\<exists>j w. v = SetMaskWord j w (band_word input (32 * w) j)) \<or> (\<exists>j n. v = AtomicAdd j n)"
proof -
  from assms have "\<exists>y\<in>set [0..<sy].
      \<exists>w\<in>set (word_indices G (num_bitmask_words (num_columns input))).
        v \<in> set (band_writes input sy y (32 * w))"
    unfolding valid_writes_def by (rule in_concat2D)
  then obtain y w where "v \<in> set (band_writes input sy y (32 * w))"
    by blast
  from band_writes_form [OF this] show ?thesis by blast
qed

lemma valid_writes_mem:
  assumes "0 < G" "0 < sy" "j < num_rows input" "w < num_bitmask_words (num_columns input)"
  shows "SetMaskWord j w (band_word input (32 * w) j) \<in> set (valid_writes input G sy)"
proof -
  have "w \<in> set (word_indices G (num_bitmask_words (num_columns input)))"
    using assms by (simp add: set_word_indices)
  moreover have "j mod sy \<in> set [0..<sy]"
    using assms by simp
  moreover have "SetMaskWord j w (band_word input (32 * w) j)
                 \<in> set (band_writes input sy (j mod sy) (32 * w))"
  proof -
    have "j \<in> set (strided (j mod sy) sy (num_rows input))"
      using assms by (simp add: strided_mem_self)
    then show ?thesis
      unfolding band_writes_def word_index_32 by auto
  qed
  ultimately show ?thesis
    unfolding valid_writes_def by (rule in_concat2I)
qed

section \<open>The memory after the validity kernel\<close>

lemma mask_after_Nil: "mask_after r k [] m0 = m0"
  by (simp add: mask_after_def map_nth)

lemma mask_after_length: "length (mask_after r k ws m0) = length m0"
  by (simp add: mask_after_def)

lemma mask_after_snoc_other:
  "(\<forall>w. v \<noteq> SetMaskWord k w (r w k)) \<Longrightarrow> mask_after r k (ws @ [v]) m0 = mask_after r k ws m0"
  by (auto simp: mask_after_def)

lemma mask_after_snoc_same:
  "mask_after r k (ws @ [SetMaskWord k w (r w k)]) m0 = (mask_after r k ws m0)[w := r w k]"
proof (rule nth_equalityI)
  fix i assume "i < length (mask_after r k (ws @ [SetMaskWord k w (r w k)]) m0)"
  then have i: "i < length m0" by (simp add: mask_after_def)
  then show "mask_after r k (ws @ [SetMaskWord k w (r w k)]) m0 ! i =
             (mask_after r k ws m0)[w := r w k] ! i"
    by (cases "i = w") (auto simp: mask_after_def)
qed (simp add: mask_after_def)

lemma memory_after_Nil: "memory_after r [] mem = mem"
proof -
  have "map (\<lambda>k. (fst mem ! k)\<lparr>null_mask := map_option (mask_after r k []) (null_mask (fst mem ! k))\<rparr>)
          [0..<length (fst mem)] = fst mem"
    by (rule nth_equalityI) (simp_all add: mask_after_Nil option.map_ident cong: option.map_cong)
  moreover have "map (\<lambda>k. snd mem ! k + sum_adds k []) [0..<length (snd mem)] = snd mem"
    by (rule nth_equalityI) (simp_all add: sum_adds_def)
  ultimately show ?thesis
    by (simp add: memory_after_def prod_eq_iff)
qed

lemma memory_after_AtomicAdd:
  "apply_write (AtomicAdd j n) (memory_after r ws mem) = memory_after r (ws @ [AtomicAdd j n]) mem"
proof -
  have "(map (\<lambda>k. snd mem ! k + sum_adds k ws) [0..<length (snd mem)])
          [j := map (\<lambda>k. snd mem ! k + sum_adds k ws) [0..<length (snd mem)] ! j + n] =
        map (\<lambda>k. snd mem ! k + sum_adds k (ws @ [AtomicAdd j n])) [0..<length (snd mem)]"
    by (rule nth_equalityI) (auto simp: nth_list_update sum_adds_def)
  moreover have "mask_after r k (ws @ [AtomicAdd j n]) = mask_after r k ws" for k
    by (intro ext mask_after_snoc_other) simp
  ultimately show ?thesis
    by (simp add: memory_after_def)
qed

lemma memory_after_SetMaskWord:
  "apply_write (SetMaskWord j w (r w j)) (memory_after r ws mem) =
   memory_after r (ws @ [SetMaskWord j w (r w j)]) mem"
proof -
  let ?v = "SetMaskWord j w (r w j)"
  let ?cols = "map (\<lambda>k. (fst mem ! k)\<lparr>null_mask :=
                   map_option (mask_after r k ws) (null_mask (fst mem ! k))\<rparr>) [0..<length (fst mem)]"
  have other: "mask_after r k (ws @ [?v]) = mask_after r k ws" if "k \<noteq> j" for k
    using that by (intro ext mask_after_snoc_other) simp
  have same: "mask_after r j (ws @ [?v]) = (\<lambda>m0. (mask_after r j ws m0)[w := r w j])"
    by (intro ext mask_after_snoc_same)
  have "?cols[j := (?cols ! j)\<lparr>null_mask := map_option (\<lambda>m. m[w := r w j]) (null_mask (?cols ! j))\<rparr>] =
        map (\<lambda>k. (fst mem ! k)\<lparr>null_mask :=
                   map_option (mask_after r k (ws @ [?v])) (null_mask (fst mem ! k))\<rparr>)
          [0..<length (fst mem)]"
  proof (rule nth_equalityI)
    fix k assume "k < length (?cols[j := (?cols ! j)\<lparr>null_mask :=
                        map_option (\<lambda>m. m[w := r w j]) (null_mask (?cols ! j))\<rparr>])"
    then have k: "k < length (fst mem)" by simp
    show "?cols[j := (?cols ! j)\<lparr>null_mask :=
                        map_option (\<lambda>m. m[w := r w j]) (null_mask (?cols ! j))\<rparr>] ! k =
          map (\<lambda>k. (fst mem ! k)\<lparr>null_mask :=
                   map_option (mask_after r k (ws @ [?v])) (null_mask (fst mem ! k))\<rparr>)
            [0..<length (fst mem)] ! k"
    proof (cases "k = j")
      case False
      with k show ?thesis by (simp add: other)
    next
      case True
      with k show ?thesis
        by (simp add: option.map_comp comp_def same)
    qed
  qed simp
  moreover have "sum_adds k (ws @ [?v]) = sum_adds k ws" for k
    by (simp add: sum_adds_def)
  ultimately show ?thesis
    by (simp add: memory_after_def)
qed

lemma apply_writes_valids:
  assumes "\<forall>v\<in>set ws. (\<exists>j w. v = SetMaskWord j w (r w j)) \<or> (\<exists>j n. v = AtomicAdd j n)"
  shows "apply_writes ws mem = memory_after r ws mem"
  using assms
proof (induction ws rule: rev_induct)
  case Nil
  show ?case by (simp add: memory_after_Nil apply_writes_def)
next
  case (snoc v ws)
  then have IH: "apply_writes ws mem = memory_after r ws mem"
    by simp
  from snoc.prems consider j w where "v = SetMaskWord j w (r w j)" | j n where "v = AtomicAdd j n"
    by auto
  then show ?case
    by cases (simp_all add: apply_writes_snoc IH memory_after_AtomicAdd memory_after_SetMaskWord)
qed

section \<open>The null counts\<close>

lemma sum_adds_concat: "sum_adds k (concat xss) = sum_list (map (sum_adds k) xss)"
  by (induction xss) (simp_all add: sum_adds_def)

lemma sum_list_delta:
  "distinct xs \<Longrightarrow>
   sum_list (map (\<lambda>x. if x = a then c x else (0::int)) xs) = (if a \<in> set xs then c a else 0)"
  by (induction xs) auto

lemma length_filter_sum:
  "int (length (filter P [0..<n])) = (\<Sum>i<n. of_bool (P i))"
  by (induction n) simp_all

lemma band_nulls_sum:
  "band_nulls input b j =
   (\<Sum>l<32. of_bool (b + l < num_columns input \<and> \<not> is_valid (column input (b + l)) j))"
proof -
  have "popc (band_active input b) = (\<Sum>l<32. of_bool (b + l < num_columns input))"
    unfolding popc_def length_filter_sum
    by (rule sum.cong) (simp_all add: bit_band_active)
  moreover have "popc (band_word input b j) =
      (\<Sum>l<32. of_bool (b + l < num_columns input \<and> is_valid (column input (b + l)) j))"
    unfolding popc_def length_filter_sum
    by (rule sum.cong) (simp_all add: bit_band_word)
  ultimately have "band_nulls input b j =
      (\<Sum>l<32. of_bool (b + l < num_columns input) -
                of_bool (b + l < num_columns input \<and> is_valid (column input (b + l)) j))"
    unfolding band_nulls_def by (simp only: sum_subtractf)
  also have "\<dots> =
      (\<Sum>l<32. of_bool (b + l < num_columns input \<and> \<not> is_valid (column input (b + l)) j))"
    by (rule sum.cong) auto
  finally show ?thesis .
qed

lemma sum_added_rows:
  "sum_list (map (added j) (concat (map (\<lambda>j'. [SetMaskWord j' (a j') (w j'), AtomicAdd j' (c j')]) xs))) =
   sum_list (map (\<lambda>j'. if j' = j then c j' else 0) xs)"
  by (induction xs) simp_all

lemma sum_adds_band:
  "sum_adds j (band_writes input sy y b) =
   (if j \<in> set (strided y sy (num_rows input)) then band_nulls input b j else 0)"
proof -
  have "sum_adds j (band_writes input sy y b) =
        sum_list (map (\<lambda>j'. if j' = j then band_nulls input b j' else 0)
                    (strided y sy (num_rows input)))"
    unfolding band_writes_def sum_adds_def band_nulls_def by (rule sum_added_rows)
  then show ?thesis
    by (simp add: sum_list_delta distinct_strided)
qed

lemma num_bitmask_words_cover: "n \<le> 32 * num_bitmask_words n"
  using num_bitmask_words_less [of "num_bitmask_words n" n] by simp

lemma sum_bands:
  fixes g :: "nat \<Rightarrow> int"
  assumes "\<And>i. num_cols \<le> i \<Longrightarrow> g i = 0"
  shows "(\<Sum>w = 0..<num_bitmask_words num_cols. \<Sum>l<32. g (32 * w + l)) = (\<Sum>i<num_cols. g i)"
proof -
  let ?n = "num_bitmask_words num_cols"
  have "(\<Sum>l<32. g (32 * w + l)) = sum g {w * 32..<w * 32 + 32}" for w
    using sum.shift_bounds_nat_ivl [of g 0 "w * 32" 32]
    by (simp add: add.commute mult.commute lessThan_atLeast0)
  then have "(\<Sum>w = 0..<?n. \<Sum>l<32. g (32 * w + l)) = (\<Sum>w<?n. sum g {w * 32..<w * 32 + 32})"
    by (simp add: lessThan_atLeast0)
  also have "\<dots> = sum g {..<?n * 32}"
    by (rule sum.nat_group)
  also have "\<dots> = sum g {..<num_cols}"
  proof (rule sum.mono_neutral_right)
    show "{..<num_cols} \<subseteq> {..<?n * 32}"
      using num_bitmask_words_cover [of num_cols] by auto
    show "\<forall>i\<in>{..<?n * 32} - {..<num_cols}. g i = 0"
      using assms by auto
  qed simp
  finally show ?thesis .
qed

lemma sum_adds_valid_writes:
  assumes "0 < G" "0 < sy" "j < num_rows input"
  shows "sum_adds j (valid_writes input G sy) =
         int (length (filter (\<lambda>i. \<not> is_valid (column input i) j) [0..<num_columns input]))"
proof -
  let ?n = "num_bitmask_words (num_columns input)"
  let ?Q = "sum_list (map (\<lambda>w. band_nulls input (32 * w) j) (word_indices G ?n))"
  have row: "sum_list (map (\<lambda>w. sum_adds j (band_writes input sy y (32 * w))) (word_indices G ?n)) =
             (if y = j mod sy then ?Q else 0)" if "y \<in> set [0..<sy]" for y
  proof -
    have "j \<in> set (strided y sy (num_rows input)) \<longleftrightarrow> y = j mod sy"
      using that assms strided_mem_mod(1) [of sy y j "num_rows input"]
        strided_mem_self [of sy j "num_rows input"] by auto
    then show ?thesis
      by (simp add: sum_adds_band)
  qed
  have "sum_adds j (valid_writes input G sy) =
        sum_list (map (\<lambda>y. sum_list (map (\<lambda>w. sum_adds j (band_writes input sy y (32 * w)))
                                        (word_indices G ?n))) [0..<sy])"
    by (simp add: valid_writes_def sum_adds_concat comp_def)
  also have "\<dots> = sum_list (map (\<lambda>y. if y = j mod sy then ?Q else 0) [0..<sy])"
    using row by (intro arg_cong [where f = sum_list] map_cong) simp_all
  also have "\<dots> = ?Q"
    using assms sum_list_delta [of "[0..<sy]" "j mod sy" "\<lambda>_. ?Q"] by simp
  also have "?Q = (\<Sum>w = 0..<?n. band_nulls input (32 * w) j)"
    using assms by (simp add: sum_list_distinct_conv_sum_set distinct_word_indices set_word_indices)
  also have "\<dots> = (\<Sum>w = 0..<?n. \<Sum>l<32.
                 of_bool (32 * w + l < num_columns input \<and> \<not> is_valid (column input (32 * w + l)) j))"
    by (simp only: band_nulls_sum)
  also have "\<dots> = (\<Sum>i<num_columns input.
                 of_bool (i < num_columns input \<and> \<not> is_valid (column input i) j))"
    by (rule sum_bands) simp
  also have "\<dots> = (\<Sum>i<num_columns input. of_bool (\<not> is_valid (column input i) j))"
    by (rule sum.cong) simp_all
  finally show ?thesis
    by (simp only: length_filter_sum)
qed

section \<open>The order of the writes does not matter\<close>

text \<open>
  The threads of a launch run concurrently, so the device may apply their writes in any
  interleaving: any list with the same writes as the one the model collects. The memory
  after a launch is the same for all of them, for both kernels.
\<close>

lemma data_after_Nil: "data_after e k [] c = data c"
  by (simp add: data_after_def map_nth)

lemma data_after_snoc_other:
  "k \<noteq> j \<Longrightarrow> data_after e k (ws @ [SetElement j i v]) c = data_after e k ws c"
  by (simp add: data_after_def)

lemma data_after_snoc_same:
  "data_after e k (ws @ [SetElement k i (e i k)]) c = (data_after e k ws c)[offset c + i := e i k]"
proof (rule nth_equalityI)
  fix p assume "p < length (data_after e k (ws @ [SetElement k i (e i k)]) c)"
  then have p: "p < length (data c)" by (simp add: data_after_def)
  show "data_after e k (ws @ [SetElement k i (e i k)]) c ! p =
        (data_after e k ws c)[offset c + i := e i k] ! p"
  proof (cases "p = offset c + i")
    case True
    with p show ?thesis by (simp add: data_after_def)
  next
    case False
    then have "offset c \<le> p \<Longrightarrow> p - offset c \<noteq> i" by auto
    with False p show ?thesis by (auto simp: data_after_def)
  qed
qed (simp add: data_after_def)

lemma stores_after_Nil: "stores_after e [] mem = mem"
proof -
  have "map (\<lambda>k. (fst mem ! k)\<lparr>data := data_after e k [] (fst mem ! k)\<rparr>) [0..<length (fst mem)] =
        fst mem"
    by (rule nth_equalityI) (simp_all add: data_after_Nil)
  then show ?thesis
    by (simp add: stores_after_def prod_eq_iff)
qed

lemma stores_after_SetElement:
  "apply_write (SetElement j i (e i j)) (stores_after e ws mem) =
   stores_after e (ws @ [SetElement j i (e i j)]) mem"
proof -
  let ?v = "SetElement j i (e i j)"
  let ?cols = "map (\<lambda>k. (fst mem ! k)\<lparr>data := data_after e k ws (fst mem ! k)\<rparr>)
                 [0..<length (fst mem)]"
  have "?cols[j := (?cols ! j)\<lparr>data := (data (?cols ! j))[offset (?cols ! j) + i := e i j]\<rparr>] =
        map (\<lambda>k. (fst mem ! k)\<lparr>data := data_after e k (ws @ [?v]) (fst mem ! k)\<rparr>)
          [0..<length (fst mem)]"
  proof (rule nth_equalityI)
    fix k assume "k < length (?cols[j := (?cols ! j)\<lparr>data :=
                        (data (?cols ! j))[offset (?cols ! j) + i := e i j]\<rparr>])"
    then have k: "k < length (fst mem)" by simp
    show "?cols[j := (?cols ! j)\<lparr>data := (data (?cols ! j))[offset (?cols ! j) + i := e i j]\<rparr>] ! k =
          map (\<lambda>k. (fst mem ! k)\<lparr>data := data_after e k (ws @ [?v]) (fst mem ! k)\<rparr>)
            [0..<length (fst mem)] ! k"
    proof (cases "k = j")
      case False
      with k show ?thesis by (simp add: data_after_snoc_other)
    next
      case True
      with k show ?thesis by (simp add: data_after_snoc_same)
    qed
  qed simp
  then show ?thesis
    by (simp add: stores_after_def)
qed

lemma apply_writes_stores:
  assumes "\<forall>w\<in>set ws. \<exists>j i. w = SetElement j i (e i j)"
  shows "apply_writes ws mem = stores_after e ws mem"
  using assms
proof (induction ws rule: rev_induct)
  case Nil
  show ?case by (simp add: stores_after_Nil apply_writes_def)
next
  case (snoc w ws)
  then have IH: "apply_writes ws mem = stores_after e ws mem"
    by simp
  from snoc.prems obtain j i where "w = SetElement j i (e i j)"
    by auto
  then show ?case
    by (simp add: apply_writes_snoc IH stores_after_SetElement)
qed

lemma value_kernel_any_order:
  assumes "mset ws = mset (kernel_stores input sx sy)"
  shows "apply_writes ws mem = apply_writes (kernel_stores input sx sy) mem"
proof -
  let ?e = "\<lambda>i j. element (column input i) j"
  from assms have s: "set ws = set (kernel_stores input sx sy)"
    by (rule mset_eq_setD)
  have "\<forall>w\<in>set (kernel_stores input sx sy). \<exists>j i. w = SetElement j i (?e i j)"
    using kernel_stores_form by blast
  with s have "apply_writes ws mem = stores_after ?e ws mem"
    "apply_writes (kernel_stores input sx sy) mem = stores_after ?e (kernel_stores input sx sy) mem"
    by (simp_all add: apply_writes_stores)
  with s show ?thesis
    by (simp add: stores_after_def data_after_def)
qed

lemma validity_kernel_any_order:
  assumes "mset ws = mset (valid_writes input G sy)"
  shows "apply_writes ws mem = apply_writes (valid_writes input G sy) mem"
proof -
  let ?r = "\<lambda>w j. band_word input (32 * w) j"
  from assms have s: "set ws = set (valid_writes input G sy)"
    by (rule mset_eq_setD)
  have sums: "sum_adds k ws = sum_adds k (valid_writes input G sy)" for k
  proof -
    have "mset (map (added k) ws) = mset (map (added k) (valid_writes input G sy))"
      using assms by simp
    then show ?thesis
      unfolding sum_adds_def by (metis sum_mset_sum_list)
  qed
  have "\<forall>v\<in>set (valid_writes input G sy).
          (\<exists>j w. v = SetMaskWord j w (?r w j)) \<or> (\<exists>j n. v = AtomicAdd j n)"
    using valid_writes_form by blast
  with s have "apply_writes ws mem = memory_after ?r ws mem"
    "apply_writes (valid_writes input G sy) mem = memory_after ?r (valid_writes input G sy) mem"
    by (simp_all add: apply_writes_valids)
  moreover have "mask_after ?r k ws = mask_after ?r k (valid_writes input G sy)" for k
    using s by (intro ext) (simp add: mask_after_def)
  ultimately show ?thesis
    using sums by (simp add: memory_after_def)
qed

section \<open>The host side in closed form\<close>

lemma dimGrid_pos:
  assumes "0 < num_columns input" "0 < num_rows input"
  shows "0 < dim_x (dimGrid input)" "0 < dim_y (dimGrid input)"
proof -
  have "0 < div_rounding_up_safe n WARP_SIZE" if "0 < n" for n :: nat
    using that unfolding div_rounding_up_safe_def WARP_SIZE_def
    by (cases "n mod 32 = 0") auto
  with assms show "0 < dim_x (dimGrid input)" "0 < dim_y (dimGrid input)"
    by (simp_all add: dimGrid_def MAX_GRID_SIZE_def)
qed

lemma dimBlock_simps: "dim_x dimBlock = 32" "dim_y dimBlock = 32"
  by (simp_all add: dimBlock_def WARP_SIZE_def)

lemma set_null_counts_eq:
  "n \<le> length out \<Longrightarrow>
   set_null_counts out ncs n =
     map (\<lambda>i. if i < n then (out ! i)\<lparr>null_count := ncs ! i\<rparr> else out ! i) [0..<length out]"
proof (induction n)
  case 0
  show ?case by (simp add: set_null_counts_def map_nth)
next
  case (Suc n)
  then have IH: "set_null_counts out ncs n =
     map (\<lambda>i. if i < n then (out ! i)\<lparr>null_count := ncs ! i\<rparr> else out ! i) [0..<length out]"
    by simp
  have "set_null_counts out ncs (Suc n) =
        (set_null_counts out ncs n)[n := (set_null_counts out ncs n ! n)\<lparr>null_count := ncs ! n\<rparr>]"
    by (simp add: set_null_counts_def)
  also have "\<dots> = map (\<lambda>i. if i < Suc n then (out ! i)\<lparr>null_count := ncs ! i\<rparr> else out ! i)
                      [0..<length out]"
    unfolding IH using Suc.prems
    by (intro nth_equalityI) (auto simp: nth_list_update less_Suc_eq)
  finally show ?case .
qed

lemma launch_kernel_eq:
  assumes "0 < num_columns input" "0 < num_rows input"
  shows "launch_kernel input output null_counts = Some (launch_result input output null_counts)"
proof -
  note pos = dimGrid_pos [OF assms]
  have sx: "0 < dim_x dimBlock * dim_x (dimGrid input)" "0 < dim_y dimBlock * dim_y (dimGrid input)"
    using pos by (simp_all add: dimBlock_simps)
  have v: "collect_writes (gpu_transpose input) (threads_of (dimGrid input) dimBlock) =
        Some (kernel_stores input (32 * dim_x (dimGrid input)) (32 * dim_y (dimGrid input)))"
    using gpu_transpose_launch [OF sx, of input] by (simp add: dimBlock_simps)
  have m: "collect_writes (gpu_transpose_valids input) (warps_of (dimGrid input) dimBlock) =
        Some (valid_writes input (dim_x (dimGrid input)) (32 * dim_y (dimGrid input)))"
    using gpu_transpose_valids_launch [OF dimBlock_simps(1) pos(1) sx(2), of input]
    by (simp add: dimBlock_simps)
  show ?thesis
    unfolding launch_kernel_def launch_result_def v m by (simp add: Let_def)
qed

lemma value_phase:
  assumes "0 < num_columns input" "0 < num_rows input"
    and out0_def: "out0 = map (allocate_like (column input 0) (num_columns input) policy mr)
                     [0..<num_rows input]"
  shows "fst (apply_writes (kernel_stores input (32 * dim_x (dimGrid input))
                 (32 * dim_y (dimGrid input))) (out0, [])) =
         map (\<lambda>j. (allocate_like (column input 0) (num_columns input) policy mr j)
                     \<lparr>data := map (\<lambda>i. element (column input i) j) [0..<num_columns input]\<rparr>)
           [0..<num_rows input]"
proof -
  note pos = dimGrid_pos [OF assms(1,2)]
  have len0: "length out0 = num_rows input"
    by (simp add: out0_def)
  have cols0: "\<forall>j<num_rows input. offset (out0 ! j) = 0 \<and>
                 length (data (out0 ! j)) = num_columns input"
    by (simp add: out0_def allocate_like_def)
  from value_kernel_result [of "32 * dim_x (dimGrid input)" "32 * dim_y (dimGrid input)"
      out0 input "[]", OF _ _ len0 cols0] pos
  obtain out1 where out1: "apply_writes (kernel_stores input (32 * dim_x (dimGrid input))
                 (32 * dim_y (dimGrid input))) (out0, []) = (out1, [])"
      "length out1 = num_rows input"
    and cols: "\<And>j. j < num_rows input \<Longrightarrow> \<exists>d. out1 ! j = (out0 ! j)\<lparr>data := d\<rparr> \<and>
              length d = num_columns input \<and>
              (\<forall>i<num_columns input. d ! i = element (column input i) j)"
    by auto
  have "out1 ! j = (allocate_like (column input 0) (num_columns input) policy mr j)
                     \<lparr>data := map (\<lambda>i. element (column input i) j) [0..<num_columns input]\<rparr>"
    if j: "j < num_rows input" for j
  proof -
    from cols [OF j] obtain d where d: "out1 ! j = (out0 ! j)\<lparr>data := d\<rparr>"
        "length d = num_columns input" "\<forall>i<num_columns input. d ! i = element (column input i) j"
      by blast
    have "d = map (\<lambda>i. element (column input i) j) [0..<num_columns input]"
      using d(2,3) by (intro nth_equalityI) simp_all
    with d(1) j show ?thesis
      by (simp add: out0_def)
  qed
  then have "out1 = map (\<lambda>j. (allocate_like (column input 0) (num_columns input) policy mr j)
                     \<lparr>data := map (\<lambda>i. element (column input i) j) [0..<num_columns input]\<rparr>)
           [0..<num_rows input]"
    using out1(2) by (intro nth_equalityI) simp_all
  with out1(1) show ?thesis by simp
qed

lemma mask_after_all:
  assumes "0 < G" "0 < sy" "j < num_rows input"
    and "length m0 = num_bitmask_words (num_columns input)"
  shows "mask_after (\<lambda>w j. band_word input (32 * w) j) j (valid_writes input G sy) m0 =
         map (\<lambda>w. band_word input (32 * w) j) [0..<num_bitmask_words (num_columns input)]"
  unfolding mask_after_def assms(4)
  using valid_writes_mem [OF assms(1,2,3)] by (intro map_cong) simp_all

lemma validity_phase:
  assumes "0 < num_columns input" "0 < num_rows input"
    and "length out1 = num_rows input"
    and "\<forall>j<num_rows input. \<exists>m0. null_mask (out1 ! j) = Some m0 \<and>
           length m0 = num_bitmask_words (num_columns input)"
  shows "apply_writes (valid_writes input (dim_x (dimGrid input)) (32 * dim_y (dimGrid input)))
           (out1, replicate (num_rows input) 0) =
         (map (\<lambda>j. (out1 ! j)\<lparr>null_mask :=
                       Some (map (\<lambda>w. band_word input (32 * w) j)
                               [0..<num_bitmask_words (num_columns input)])\<rparr>)
            [0..<num_rows input],
          map (\<lambda>j. int (length (filter (\<lambda>i. \<not> is_valid (column input i) j)
                                    [0..<num_columns input])))
            [0..<num_rows input])"
proof -
  note pos = dimGrid_pos [OF assms(1,2)]
  let ?G = "dim_x (dimGrid input)" and ?sy = "32 * dim_y (dimGrid input)"
  let ?r = "\<lambda>w j. band_word input (32 * w) j"
  have sy: "0 < ?sy" using pos by simp
  have "\<forall>v\<in>set (valid_writes input ?G ?sy).
          (\<exists>j w. v = SetMaskWord j w (?r w j)) \<or> (\<exists>j n. v = AtomicAdd j n)"
    using valid_writes_form by blast
  then have "apply_writes (valid_writes input ?G ?sy) (out1, replicate (num_rows input) 0) =
             memory_after ?r (valid_writes input ?G ?sy) (out1, replicate (num_rows input) 0)"
    by (rule apply_writes_valids)
  moreover have "map (\<lambda>k. (out1 ! k)\<lparr>null_mask :=
                     map_option (mask_after ?r k (valid_writes input ?G ?sy)) (null_mask (out1 ! k))\<rparr>)
                   [0..<num_rows input] =
                 map (\<lambda>j. (out1 ! j)\<lparr>null_mask :=
                       Some (map (\<lambda>w. band_word input (32 * w) j)
                               [0..<num_bitmask_words (num_columns input)])\<rparr>)
                   [0..<num_rows input]"
  proof (rule map_cong [OF refl])
    fix j assume "j \<in> set [0..<num_rows input]"
    then have j: "j < num_rows input" by simp
    with assms(4) obtain m0 where m0: "null_mask (out1 ! j) = Some m0"
        "length m0 = num_bitmask_words (num_columns input)"
      by blast
    show "(out1 ! j)\<lparr>null_mask :=
            map_option (mask_after ?r j (valid_writes input ?G ?sy)) (null_mask (out1 ! j))\<rparr> =
          (out1 ! j)\<lparr>null_mask := Some (map (\<lambda>w. band_word input (32 * w) j)
                               [0..<num_bitmask_words (num_columns input)])\<rparr>"
      unfolding m0(1) option.map mask_after_all [OF pos(1) sy j m0(2)] ..
  qed
  moreover have "map (\<lambda>k. replicate (num_rows input) 0 ! k + sum_adds k (valid_writes input ?G ?sy))
                   [0..<num_rows input] =
                 map (\<lambda>j. int (length (filter (\<lambda>i. \<not> is_valid (column input i) j)
                                    [0..<num_columns input])))
                   [0..<num_rows input]"
    using sum_adds_valid_writes [OF pos(1) sy] by (intro map_cong) simp_all
  ultimately show ?thesis
    by (simp add: memory_after_def assms(3))
qed

lemma launch_result_no_nulls:
  assumes "0 < num_columns input" "0 < num_rows input" "\<not> has_nulls input"
  shows "launch_result input
           (map (allocate_like (column input 0) (num_columns input) NEVER mr) [0..<num_rows input])
           [] =
         (transposed input, [])"
proof -
  have "fst (apply_writes (kernel_stores input (32 * dim_x (dimGrid input))
                 (32 * dim_y (dimGrid input)))
              (map (allocate_like (column input 0) (num_columns input) NEVER mr)
                 [0..<num_rows input], [])) = transposed input"
    unfolding value_phase [OF assms(1,2) refl] transposed_def
    using assms(3) by (intro map_cong) (simp_all add: allocate_like_def)
  then show ?thesis
    by (simp add: launch_result_def Let_def)
qed

lemma launch_result_nulls:
  assumes "0 < num_columns input" "0 < num_rows input" "has_nulls input"
  shows "(case launch_result input
           (map (allocate_like (column input 0) (num_columns input) ALWAYS mr) [0..<num_rows input])
           (replicate (num_rows input) 0) of
          (output, null_counts) \<Rightarrow> set_null_counts output null_counts (num_rows input)) =
         transposed input"
proof -
  let ?out1 = "map (\<lambda>j. (allocate_like (column input 0) (num_columns input) ALWAYS mr j)
                     \<lparr>data := map (\<lambda>i. element (column input i) j) [0..<num_columns input]\<rparr>)
           [0..<num_rows input]"
  let ?out2 = "map (\<lambda>j. (?out1 ! j)\<lparr>null_mask :=
                       Some (map (\<lambda>w. band_word input (32 * w) j)
                               [0..<num_bitmask_words (num_columns input)])\<rparr>)
            [0..<num_rows input]"
  let ?ncs = "map (\<lambda>j. int (length (filter (\<lambda>i. \<not> is_valid (column input i) j)
                                    [0..<num_columns input])))
            [0..<num_rows input]"
  have masks: "\<forall>j<num_rows input. \<exists>m0. null_mask (?out1 ! j) = Some m0 \<and>
           length m0 = num_bitmask_words (num_columns input)"
    by (simp add: allocate_like_def)
  have ne: "replicate (num_rows input) (0::int) \<noteq> []"
    using assms(2) by simp
  have "launch_result input
           (map (allocate_like (column input 0) (num_columns input) ALWAYS mr) [0..<num_rows input])
           (replicate (num_rows input) 0) = (?out2, ?ncs)"
    unfolding launch_result_def Let_def value_phase [OF assms(1,2) refl] if_P [OF ne] length_replicate
    by (rule validity_phase [OF assms(1,2) _ masks]) simp
  moreover have "set_null_counts ?out2 ?ncs (num_rows input) = transposed input"
    unfolding transposed_def
    using assms(3)
    by (subst set_null_counts_eq) (auto simp: allocate_like_def intro!: nth_equalityI)
  ultimately show ?thesis by simp
qed

lemma transpose_table_eq:
  assumes "0 < num_columns input" "0 < num_rows input"
    and "list_all (\<lambda>col. dtype (column input 0) = dtype col) input"
    and "is_fixed_width (dtype (column input 0))"
  shows "transpose_table input mr = Some (Inr (transposed input))"
proof (cases "has_nulls input")
  case True
  with assms launch_result_nulls [OF assms(1,2) True, of mr] show ?thesis
    by (simp add: transpose_table_def Let_def launch_kernel_eq split: prod.splits)
next
  case False
  with assms launch_result_no_nulls [OF assms(1,2) False, of mr] show ?thesis
    by (simp add: transpose_table_def Let_def launch_kernel_eq)
qed

section \<open>The traced host side returns what the host side returns\<close>

lemma launch_kernel_traced_result:
  "map_option snd (launch_kernel_traced input output null_counts trace) =
   launch_kernel input output null_counts"
proof (cases "collect_writes (gpu_transpose input) (threads_of (dimGrid input) dimBlock)")
  case None
  then show ?thesis
    by (simp add: launch_kernel_traced_def launch_kernel_def Let_def)
next
  case (Some ws)
  show ?thesis
  proof (cases "collect_writes (gpu_transpose_valids input) (warps_of (dimGrid input) dimBlock)")
    case None
    with Some show ?thesis
      by (simp add: launch_kernel_traced_def launch_kernel_def Let_def)
  next
    case (Some vs)
    with \<open>collect_writes (gpu_transpose input) (threads_of (dimGrid input) dimBlock) = Some ws\<close>
    show ?thesis
      by (simp add: launch_kernel_traced_def launch_kernel_def Let_def)
  qed
qed

lemma launch_kernel_traced_trace:
  assumes "launch_kernel_traced input output null_counts trace = Some (trace', result)"
  shows "\<exists>rest. trace' = trace @ [DeviceViewCreate, DeviceViewCreate,
                                     KernelLaunch GpuTranspose (dimGrid input) dimBlock] @ rest"
  using assms
  by (auto simp: launch_kernel_traced_def Let_def bind_eq_Some_conv split: if_splits)

lemma transpose_traced_result:
  "map_option snd (transpose_traced input mr) = transpose_table input mr"
proof -
  have "map_option snd
          (Option.bind (launch_kernel_traced input out0 null_counts trace)
             (\<lambda>(trace'', output', null_counts'). Some (trace'', f output' null_counts'))) =
        Option.bind (launch_kernel input out0 null_counts)
             (\<lambda>(output', null_counts'). Some (f output' null_counts'))"
    for out0 null_counts trace and f :: "'a table \<Rightarrow> int list \<Rightarrow> error + 'a table"
    unfolding launch_kernel_traced_result [of input out0 null_counts trace, symmetric]
    by (cases "launch_kernel_traced input out0 null_counts trace") auto
  then show ?thesis
    by (simp add: transpose_traced_def transpose_table_def Let_def)
qed

lemma transpose_traced_success:
  assumes "0 < num_columns input" "0 < num_rows input"
    and "list_all (\<lambda>col. dtype (column input 0) = dtype col) input"
    and "is_fixed_width (dtype (column input 0))"
  shows "\<exists>rest. transpose_traced input mr =
           Some (map DeviceAllocation [0..<num_rows input] @
                 [DeviceViewCreate, DeviceViewCreate,
                  KernelLaunch GpuTranspose (dimGrid input) dimBlock] @ rest,
                 Inr (transposed input))"
proof -
  from transpose_traced_result [of input mr] transpose_table_eq [OF assms, of mr]
  obtain tr where tr: "transpose_traced input mr = Some (tr, Inr (transposed input))"
    by (cases "transpose_traced input mr") auto
  then obtain result where
    "launch_kernel_traced input
       (map (allocate_like (column input 0) (num_columns input)
               (if has_nulls input then ALWAYS else NEVER) mr) [0..<num_rows input])
       (replicate (if has_nulls input then num_rows input else 0) 0)
       (map DeviceAllocation [0..<num_rows input]) = Some (tr, result)"
    using assms
    by (auto simp: transpose_traced_def Let_def bind_eq_Some_conv)
  from launch_kernel_traced_trace [OF this] tr show ?thesis
    by auto
qed

section \<open>Properties of the transposed table\<close>

lemma homogeneous_list_all:
  assumes "0 < num_columns input" "\<forall>c\<in>set input. dtype c = t"
  shows "list_all (\<lambda>col. dtype (column input 0) = dtype col) input" "dtype (column input 0) = t"
proof -
  from assms(1) have "column input 0 \<in> set input"
    by (simp add: num_columns_def column_def)
  with assms(2) show "dtype (column input 0) = t" by simp
  with assms(2) show "list_all (\<lambda>col. dtype (column input 0) = dtype col) input"
    by (simp add: list_all_iff)
qed

lemma transposed_shape:
  "num_columns (transposed input) = num_rows input"
  "0 < num_rows input \<Longrightarrow> num_rows (transposed input) = num_columns input"
  by (simp_all add: transposed_def num_columns_def num_rows_def upt_conv_Cons split: list.split)

lemma transposed_column:
  "j < num_rows input \<Longrightarrow>
   column (transposed input) j =
     \<lparr>dtype = dtype (column input 0), csize = num_columns input,
      data = map (\<lambda>i. element (column input i) j) [0..<num_columns input],
      null_mask = (if has_nulls input
                   then Some (map (\<lambda>w. band_word input (32 * w) j)
                                [0..<num_bitmask_words (num_columns input)])
                   else None),
      null_count = (if has_nulls input
                    then int (length (filter (\<lambda>i. \<not> is_valid (column input i) j)
                                        [0..<num_columns input]))
                    else 0),
      offset = 0\<rparr>"
  by (simp add: transposed_def column_def)

lemma element_transposed:
  "i < num_columns input \<Longrightarrow> j < num_rows input \<Longrightarrow>
   element (column (transposed input) j) i = element (column input i) j"
  by (simp add: transposed_column element_def)

lemma bit_is_set_band_words:
  assumes "b < 32 * num_bitmask_words (num_columns input)"
  shows "bit_is_set (map (\<lambda>w. band_word input (32 * w) j) [0..<num_bitmask_words (num_columns input)]) b
         \<longleftrightarrow> b < num_columns input \<and> is_valid (column input b) j"
proof -
  from assms have "b div 32 < num_bitmask_words (num_columns input)"
    by (simp add: less_mult_imp_div_less mult.commute)
  moreover have "32 * (b div 32) + b mod 32 = b" by simp
  ultimately show ?thesis
    by (simp add: bit_is_set_def word_index_def intra_word_index_def bit_band_word)
qed

lemma example_input_nulls_facts:
  "valid_table example_input_nulls"
  "num_columns example_input_nulls = 2" "num_rows example_input_nulls = 3"
  "\<forall>c\<in>set example_input_nulls. dtype c = INT32" "is_fixed_width INT32"
  "has_nulls example_input_nulls"
  by (simp_all add: example_input_nulls_def valid_table_def valid_column_def num_rows_def
        num_columns_def is_fixed_width_def has_nulls_def num_bitmask_words_def)

lemma example_input_nulls_valid:
  "is_valid (column example_input_nulls 0) 0" "\<not> is_valid (column example_input_nulls 0) 1"
  "is_valid (column example_input_nulls 0) 2"
  "is_valid (column example_input_nulls 1) 0" "is_valid (column example_input_nulls 1) 1"
  "is_valid (column example_input_nulls 1) 2"
  by (simp_all add: example_input_nulls_def is_valid_def column_def bit_is_set_def
        word_index_def intra_word_index_def)

lemma sum_length_filter_swap:
  "(\<Sum>j<n. int (length (filter (\<lambda>i. P i j) [0..<m]))) =
   (\<Sum>i<m. int (length (filter (\<lambda>j. P i j) [0..<n])))"
proof -
  have "(\<Sum>j<n. int (length (filter (\<lambda>i. P i j) [0..<m]))) = (\<Sum>j<n. \<Sum>i<m. of_bool (P i j))"
    by (simp only: length_filter_sum)
  also have "\<dots> = (\<Sum>i<m. \<Sum>j<n. of_bool (P i j))"
    by (rule sum.swap)
  finally show ?thesis
    by (simp only: length_filter_sum)
qed

lemma example_input_facts:
  "valid_table example_input"
  "num_columns example_input = 2" "num_rows example_input = 3"
  "\<forall>c\<in>set example_input. dtype c = INT32" "is_fixed_width INT32"
  "\<not> has_nulls example_input"
  by (simp_all add: example_input_def valid_table_def valid_column_def num_rows_def
        num_columns_def is_fixed_width_def has_nulls_def)

lemma transposed_preconditions:
  assumes "0 < num_columns input" "0 < num_rows input"
    and "list_all (\<lambda>col. dtype (column input 0) = dtype col) input"
    and "is_fixed_width (dtype (column input 0))"
  shows "0 < num_columns (transposed input)" "0 < num_rows (transposed input)"
    "list_all (\<lambda>col. dtype (column (transposed input) 0) = dtype col) (transposed input)"
    "is_fixed_width (dtype (column (transposed input) 0))"
proof -
  show "0 < num_columns (transposed input)" "0 < num_rows (transposed input)"
    using assms(1,2) by (simp_all add: transposed_shape)
  have "dtype (column (transposed input) 0) = dtype (column input 0)"
    using assms(2) by (simp add: transposed_column)
  moreover have "\<forall>c\<in>set (transposed input). dtype c = dtype (column input 0)"
    by (auto simp: transposed_def)
  ultimately show "list_all (\<lambda>col. dtype (column (transposed input) 0) = dtype col) (transposed input)"
    "is_fixed_width (dtype (column (transposed input) 0))"
    using assms(4) by (simp_all add: list_all_iff)
qed

section \<open>The validity unpacker: degenerate calls, failure and result\<close>

text \<open>
  C8. A call of the validity unpacker with length 0 returns the empty boolean column
  whatever the mask reference and the offset are, also for an absent mask (the result
  does not depend on the mask, which is never read); a call with a positive length and an
  absent mask fails with \<open>InvalidArgument\<close>.
\<close>

theorem mask_to_bools_degenerate:
  "(\<exists>c. mask_to_bools bitmask offs 0 = Inr c \<and> mask_to_bools None offs 0 = Inr c \<and>
        csize c = 0 \<and> data c = [] \<and> null_mask c = None) \<and>
   (0 < len \<longrightarrow> mask_to_bools None offs len = Inl InvalidArgument)"
  by (simp add: mask_to_bools_def make_fixed_width_column_def)

theorem mask_to_bools_degenerate_witness:
  "(\<exists>c. mask_to_bools (Some [5]) 7 0 = Inr c \<and> mask_to_bools None 7 0 = Inr c \<and>
        csize c = 0 \<and> data c = [] \<and> null_mask c = None) \<and>
   mask_to_bools None 7 3 = Inl InvalidArgument"
  using mask_to_bools_degenerate [of "Some [5]" 7 3] by simp

text \<open>
  C9. For a present mask, any offset and a positive length, the validity unpacker returns
  a boolean column of exactly that length without a validity mask of its own, whose
  element \<open>k\<close> is \<open>bit_is_set mask (offset + k)\<close> for every \<open>k\<close> below the length;
  if the bits \<open>offset .. offset + length - 1\<close> of the mask are all set, the result holds
  \<open>length\<close> true values.
\<close>

theorem mask_to_bools_correct:
  assumes "0 < len"
  shows "\<exists>c. mask_to_bools (Some m) offs len = Inr c \<and>
           dtype c = BOOL8 \<and> csize c = len \<and> length (data c) = len \<and>
           null_mask c = None \<and> null_count c = 0 \<and>
           (\<forall>k<len. element c k = bit_is_set m (offs + k)) \<and>
           ((\<forall>k<len. bit_is_set m (offs + k)) \<longrightarrow> data c = replicate len True)"
proof -
  let ?c = "make_fixed_width_column BOOL8 len (map (\<lambda>index. bit_is_set m (offs + index)) [0..<len])"
  have res: "mask_to_bools (Some m) offs len = Inr ?c"
    using assms by (simp add: mask_to_bools_def)
  have elems: "\<forall>k<len. element ?c k = bit_is_set m (offs + k)"
    by (simp add: element_def make_fixed_width_column_def)
  have all_set: "(\<forall>k<len. bit_is_set m (offs + k)) \<longrightarrow> data ?c = replicate len True"
    by (auto simp: make_fixed_width_column_def intro!: nth_equalityI)
  from res elems all_set show ?thesis
    by (simp add: make_fixed_width_column_def)
qed

theorem mask_to_bools_correct_witness:
  "\<exists>c. mask_to_bools (Some [14, 0]) 1 3 = Inr c \<and>
       dtype c = BOOL8 \<and> csize c = 3 \<and> length (data c) = 3 \<and>
       null_mask c = None \<and> null_count c = 0 \<and>
       element c 0 = bit_is_set [14, 0] 1 \<and> element c 2 = bit_is_set [14, 0] 3 \<and>
       data c = replicate 3 True"
proof -
  have all_set: "\<forall>k<3. bit_is_set [14, 0 :: bitmask_type] (1 + k)"
  proof (intro allI impI)
    fix k :: nat assume "k < 3"
    then have "k = 0 \<or> k = 1 \<or> k = 2" by arith
    then show "bit_is_set [14, 0 :: bitmask_type] (1 + k)"
      by (auto simp: bit_is_set_def word_index_def intra_word_index_def)
  qed
  from mask_to_bools_correct [of 3 "[14, 0]" 1]
  obtain c where c: "mask_to_bools (Some [14, 0]) 1 3 = Inr c" "dtype c = BOOL8" "csize c = 3"
      "length (data c) = 3" "null_mask c = None" "null_count c = 0"
      "\<forall>k<3. element c k = bit_is_set [14, 0] (1 + k)"
      "(\<forall>k<3. bit_is_set [14, 0 :: bitmask_type] (1 + k)) \<longrightarrow> data c = replicate 3 True"
    by auto
  from c(7) have "element c 0 = bit_is_set [14, 0] 1" "element c 2 = bit_is_set [14, 0] 3"
    by auto
  with c all_set show ?thesis
    by blast
qed

section \<open>Transpose: degenerate input and precondition failures\<close>

text \<open>
  C6. For an input table with zero columns or zero rows, transpose returns, without an
  error, the empty table: 0 columns and 0 rows.
\<close>

theorem transpose_degenerate:
  assumes "num_columns input = 0 \<or> num_rows input = 0"
  shows "\<exists>out. transpose_table input mr = Some (Inr out) \<and> num_columns out = 0 \<and> num_rows out = 0"
  using assms by (simp add: transpose_table_def num_columns_def num_rows_def)

theorem transpose_degenerate_witness:
  "\<exists>out. transpose_table [\<lparr>dtype = INT32, csize = 0, data = [] :: nat list, null_mask = None,
                       null_count = 0, offset = 0\<rparr>]
            \<lparr>fresh_data = (\<lambda>k i. 0), fresh_mask = (\<lambda>k i. 0)\<rparr> = Some (Inr out) \<and>
         num_columns out = 0 \<and> num_rows out = 0"
  by (rule transpose_degenerate) (simp add: num_rows_def)

text \<open>
  C7. For a table with at least one column and one row: if two of its columns differ in
  their element type, transpose fails with \<open>TypeMismatch\<close>; if all columns have one
  element type and it is not fixed-width, transpose fails with \<open>UnsupportedType\<close>. In
  both cases the failure is raised with an empty trace of device effects: no output column
  has been allocated, no device view created and no kernel launched when the check throws,
  and the caller receives the failure and no output table. (A call that passes the checks
  does allocate and launch: lemma \<open>transpose_traced_success\<close>.)
\<close>

theorem transpose_precondition_failures:
  assumes "0 < num_columns input" and "0 < num_rows input"
  shows "((\<exists>a\<in>set input. \<exists>b\<in>set input. dtype a \<noteq> dtype b) \<longrightarrow>
            transpose_traced input mr = Some ([], Inl TypeMismatch) \<and>
            transpose_table input mr = Some (Inl TypeMismatch)) \<and>
         ((\<forall>c\<in>set input. dtype c = t) \<and> \<not> is_fixed_width t \<longrightarrow>
            transpose_traced input mr = Some ([], Inl UnsupportedType) \<and>
            transpose_table input mr = Some (Inl UnsupportedType))"
proof (intro conjI impI)
  assume "\<exists>a\<in>set input. \<exists>b\<in>set input. dtype a \<noteq> dtype b"
  then have "\<exists>c\<in>set input. dtype (column input 0) \<noteq> dtype c"
    by metis
  then have mismatch: "\<not> list_all (\<lambda>col. dtype (column input 0) = dtype col) input"
    by (simp add: list_all_iff)
  with assms show "transpose_traced input mr = Some ([], Inl TypeMismatch)"
    by (simp add: transpose_traced_def Let_def)
  from mismatch assms show "transpose_table input mr = Some (Inl TypeMismatch)"
    by (simp add: transpose_table_def Let_def)
next
  assume h: "(\<forall>c\<in>set input. dtype c = t) \<and> \<not> is_fixed_width t"
  from assms(1) have "column input 0 \<in> set input"
    by (simp add: num_columns_def column_def)
  with h have first: "dtype (column input 0) = t" by simp
  with h have same: "list_all (\<lambda>col. dtype (column input 0) = dtype col) input"
    by (simp add: list_all_iff)
  with assms h first show "transpose_traced input mr = Some ([], Inl UnsupportedType)"
    by (simp add: transpose_traced_def Let_def)
  from same assms h first show "transpose_table input mr = Some (Inl UnsupportedType)"
    by (simp add: transpose_table_def Let_def)
qed

theorem transpose_precondition_failures_witness:
  "transpose_traced example_mixed_types example_mr = Some ([], Inl TypeMismatch) \<and>
   transpose_table example_mixed_types example_mr = Some (Inl TypeMismatch) \<and>
   transpose_traced example_strings example_mr = Some ([], Inl UnsupportedType) \<and>
   transpose_table example_strings example_mr = Some (Inl UnsupportedType)"
proof -
  have m: "0 < num_columns example_mixed_types" "0 < num_rows example_mixed_types"
    by (simp_all add: example_mixed_types_def num_columns_def num_rows_def)
  have "example_mixed_types ! 0 \<in> set example_mixed_types"
       "example_mixed_types ! 1 \<in> set example_mixed_types"
       "dtype (example_mixed_types ! 0) \<noteq> dtype (example_mixed_types ! 1)"
    by (simp_all add: example_mixed_types_def)
  then have differ: "\<exists>a\<in>set example_mixed_types. \<exists>b\<in>set example_mixed_types. dtype a \<noteq> dtype b"
    by blast
  have s: "0 < num_columns example_strings" "0 < num_rows example_strings"
    by (simp_all add: example_strings_def num_columns_def num_rows_def)
  have strings: "(\<forall>c\<in>set example_strings. dtype c = STRING) \<and> \<not> is_fixed_width STRING"
    by (simp add: example_strings_def is_fixed_width_def)
  from transpose_precondition_failures [OF m, where mr = example_mr, THEN conjunct1,
      rule_format, OF differ]
    transpose_precondition_failures [OF s, where mr = example_mr and t = STRING, THEN conjunct2,
      rule_format, OF strings]
  show ?thesis by simp
qed

section \<open>Transpose: elements, validity, null counts\<close>

text \<open>
  C1. For a valid input table of one fixed-width element type with at least one column and
  one row, transpose returns a table with the shape swapped in which element \<open>i\<close> of
  column \<open>j\<close> is element \<open>j\<close> of input column \<open>i\<close>, for all \<open>i\<close> below the
  column count and \<open>j\<close> below the row count. The launch of the value kernel returns,
  and the cells its threads store to are pairwise different and are exactly the cells of
  the output: every output element is written exactly once, whatever the sizes are, also
  beyond one pass of the capped grid.
\<close>

theorem transpose_element_correspondence:
  assumes "valid_table input" "0 < num_columns input" "0 < num_rows input"
    and "\<forall>c\<in>set input. dtype c = t" "is_fixed_width t"
  shows "\<exists>out. transpose_table input mr = Some (Inr out) \<and>
           num_columns out = num_rows input \<and> num_rows out = num_columns input \<and>
           (\<forall>i<num_columns input. \<forall>j<num_rows input.
              element (column out j) i = element (column input i) j) \<and>
           (\<exists>ws. collect_writes (gpu_transpose input) (threads_of (dimGrid input) dimBlock) = Some ws \<and>
                 distinct (stored_cells ws) \<and>
                 set (stored_cells ws) = {0..<num_rows input} \<times> {0..<num_columns input})"
proof -
  note hom = homogeneous_list_all [OF assms(2,4)]
  have res: "transpose_table input mr = Some (Inr (transposed input))"
    using assms hom by (intro transpose_table_eq) simp_all
  note pos = dimGrid_pos [OF assms(2,3)]
  have sx: "0 < dim_x dimBlock * dim_x (dimGrid input)" "0 < dim_y dimBlock * dim_y (dimGrid input)"
    using pos by (simp_all add: dimBlock_simps)
  have "collect_writes (gpu_transpose input) (threads_of (dimGrid input) dimBlock) =
        Some (kernel_stores input (dim_x dimBlock * dim_x (dimGrid input))
                (dim_y dimBlock * dim_y (dimGrid input)))"
    by (rule gpu_transpose_launch [OF sx])
  moreover note distinct_stored_cells_kernel [OF sx, of input]
    set_stored_cells_kernel [OF sx, of input]
  ultimately have "\<exists>ws. collect_writes (gpu_transpose input) (threads_of (dimGrid input) dimBlock) = Some ws \<and>
                 distinct (stored_cells ws) \<and>
                 set (stored_cells ws) = {0..<num_rows input} \<times> {0..<num_columns input}"
    by blast
  with res assms(3) show ?thesis
    by (simp add: transposed_shape element_transposed)
qed

theorem transpose_element_correspondence_witness:
  "\<exists>out. transpose_table example_input example_mr = Some (Inr out) \<and>
         num_columns out = 3 \<and> num_rows out = 2 \<and>
         element (column out 0) 0 = 1 \<and> element (column out 0) 1 = 4 \<and>
         element (column out 2) 0 = 3 \<and> element (column out 2) 1 = 6"
proof -
  have v: "valid_table example_input"
    by (simp add: example_input_def valid_table_def valid_column_def num_rows_def)
  have n: "num_columns example_input = 2" "num_rows example_input = 3"
    by (simp_all add: example_input_def num_columns_def num_rows_def)
  have t: "\<forall>c\<in>set example_input. dtype c = INT32" "is_fixed_width INT32"
    by (simp_all add: example_input_def is_fixed_width_def)
  from transpose_element_correspondence [OF v _ _ t, of example_mr] n
  obtain out where out: "transpose_table example_input example_mr = Some (Inr out)"
      "num_columns out = 3" "num_rows out = 2"
      "\<forall>i<2. \<forall>j<3. element (column out j) i = element (column example_input i) j"
    by auto
  from out(4) have "element (column out 0) 0 = element (column example_input 0) 0"
      "element (column out 0) 1 = element (column example_input 1) 0"
      "element (column out 2) 0 = element (column example_input 0) 2"
      "element (column out 2) 1 = element (column example_input 1) 2"
    by simp_all
  then have "element (column out 0) 0 = 1" "element (column out 0) 1 = 4"
      "element (column out 2) 0 = 3" "element (column out 2) 1 = 6"
    by (simp_all add: example_input_def element_def column_def)
  with out show ?thesis by blast
qed

text \<open>
  C2. For such a table that has nulls, every output column \<open>j\<close> carries a mask of
  \<open>num_bitmask_words ncols\<close> words; bit \<open>i\<close> of it is set if and only if element \<open>j\<close>
  of input column \<open>i\<close> is valid (so element \<open>i\<close> of output column \<open>j\<close> is valid
  exactly then); and bit \<open>l\<close> of the word at index \<open>i div 32\<close> is the validity at row
  \<open>j\<close> of input column \<open>32 * (i div 32) + l\<close>, the lane position in the band, and is
  clear if there is no such column.
\<close>

theorem transpose_validity_correspondence:
  assumes "valid_table input" "0 < num_columns input" "0 < num_rows input"
    and "\<forall>c\<in>set input. dtype c = t" "is_fixed_width t" "has_nulls input"
  shows "\<exists>out. transpose_table input mr = Some (Inr out) \<and>
           (\<forall>j<num_rows input. \<exists>m. null_mask (column out j) = Some m \<and>
              length m = num_bitmask_words (num_columns input) \<and>
              (\<forall>i<num_columns input.
                 (bit_is_set m i \<longleftrightarrow> is_valid (column input i) j) \<and>
                 (is_valid (column out j) i \<longleftrightarrow> is_valid (column input i) j) \<and>
                 (\<forall>l<32. bit (m ! word_index i) l \<longleftrightarrow>
                    32 * word_index i + l < num_columns input \<and>
                    is_valid (column input (32 * word_index i + l)) j)))"
proof -
  note hom = homogeneous_list_all [OF assms(2,4)]
  let ?n = "num_bitmask_words (num_columns input)"
  have res: "transpose_table input mr = Some (Inr (transposed input))"
    using assms hom by (intro transpose_table_eq) simp_all
  have "\<exists>m. null_mask (column (transposed input) j) = Some m \<and> length m = ?n \<and>
              (\<forall>i<num_columns input.
                 (bit_is_set m i \<longleftrightarrow> is_valid (column input i) j) \<and>
                 (is_valid (column (transposed input) j) i \<longleftrightarrow> is_valid (column input i) j) \<and>
                 (\<forall>l<32. bit (m ! word_index i) l \<longleftrightarrow>
                    32 * word_index i + l < num_columns input \<and>
                    is_valid (column input (32 * word_index i + l)) j))"
    if j: "j < num_rows input" for j
  proof -
    let ?m = "map (\<lambda>w. band_word input (32 * w) j) [0..<?n]"
    have m: "null_mask (column (transposed input) j) = Some ?m"
       and off: "offset (column (transposed input) j) = 0"
      using j assms(6) by (simp_all add: transposed_column)
    have cover: "i < 32 * ?n" if "i < num_columns input" for i
      using that num_bitmask_words_cover [of "num_columns input"] by simp
    have bits: "bit_is_set ?m i \<longleftrightarrow> is_valid (column input i) j" if "i < num_columns input" for i
      using bit_is_set_band_words [OF cover [OF that], of j] that by simp
    have words: "bit (?m ! word_index i) l \<longleftrightarrow>
                    32 * word_index i + l < num_columns input \<and>
                    is_valid (column input (32 * word_index i + l)) j"
      if "i < num_columns input" "l < 32" for i l
    proof -
      from cover [OF that(1)] have "word_index i < ?n"
        by (simp add: word_index_def less_mult_imp_div_less mult.commute)
      then show ?thesis
        using that(2) by (simp add: bit_band_word)
    qed
    have "is_valid (column (transposed input) j) i \<longleftrightarrow> is_valid (column input i) j"
      if "i < num_columns input" for i
      using bits [OF that] by (simp add: is_valid_def m off)
    with m bits words show ?thesis by simp
  qed
  with res show ?thesis by simp
qed

theorem transpose_validity_correspondence_witness:
  "\<exists>out. transpose_table example_input_nulls example_mr = Some (Inr out) \<and>
     (\<exists>m. null_mask (column out 1) = Some m \<and> length m = 1 \<and>
          \<not> bit_is_set m 0 \<and> bit_is_set m 1 \<and>
          \<not> is_valid (column out 1) 0 \<and> is_valid (column out 1) 1)"
proof -
  note f = example_input_nulls_facts
  have p: "0 < num_columns example_input_nulls" "0 < num_rows example_input_nulls"
      "1 < num_rows example_input_nulls" "0 < num_columns example_input_nulls"
      "1 < num_columns example_input_nulls"
    by (simp_all add: f)
  from transpose_validity_correspondence [OF f(1) p(1,2) f(4,5,6), of example_mr]
  obtain out where out: "transpose_table example_input_nulls example_mr = Some (Inr out)"
    and cols: "\<And>j. j < num_rows example_input_nulls \<Longrightarrow>
              \<exists>m. null_mask (column out j) = Some m \<and>
              length m = num_bitmask_words (num_columns example_input_nulls) \<and>
              (\<forall>i<num_columns example_input_nulls.
                 (bit_is_set m i \<longleftrightarrow> is_valid (column example_input_nulls i) j) \<and>
                 (is_valid (column out j) i \<longleftrightarrow> is_valid (column example_input_nulls i) j) \<and>
                 (\<forall>l<32. bit (m ! word_index i) l \<longleftrightarrow>
                    32 * word_index i + l < num_columns example_input_nulls \<and>
                    is_valid (column example_input_nulls (32 * word_index i + l)) j))"
    by blast
  from cols [OF p(3)] obtain m where m: "null_mask (column out 1) = Some m"
      "length m = num_bitmask_words (num_columns example_input_nulls)"
    and bits: "\<And>i. i < num_columns example_input_nulls \<Longrightarrow>
                 (bit_is_set m i \<longleftrightarrow> is_valid (column example_input_nulls i) 1) \<and>
                 (is_valid (column out 1) i \<longleftrightarrow> is_valid (column example_input_nulls i) 1)"
    by blast
  from bits [OF p(4)] bits [OF p(5)] have "\<not> bit_is_set m 0" "bit_is_set m 1"
      "\<not> is_valid (column out 1) 0" "is_valid (column out 1) 1"
    using example_input_nulls_valid by simp_all
  moreover from m(2) have "length m = 1"
    by (simp add: f num_bitmask_words_def)
  ultimately show ?thesis
    using out m(1) by blast
qed

text \<open>
  C3. For such a table that has nulls, the null count of output column \<open>j\<close> is the
  number of input columns whose element \<open>j\<close> is null, and the null counts of all output
  columns add up to the number of null elements of the input table, counted column by
  column.
\<close>

theorem transpose_null_counts:
  assumes "valid_table input" "0 < num_columns input" "0 < num_rows input"
    and "\<forall>c\<in>set input. dtype c = t" "is_fixed_width t" "has_nulls input"
  shows "\<exists>out. transpose_table input mr = Some (Inr out) \<and>
           (\<forall>j<num_rows input.
              null_count (column out j) =
                int (length (filter (\<lambda>i. \<not> is_valid (column input i) j) [0..<num_columns input]))) \<and>
           (\<Sum>j<num_rows input. null_count (column out j)) =
             (\<Sum>i<num_columns input.
                int (length (filter (\<lambda>j. \<not> is_valid (column input i) j) [0..<num_rows input])))"
proof -
  note hom = homogeneous_list_all [OF assms(2,4)]
  have res: "transpose_table input mr = Some (Inr (transposed input))"
    using assms hom by (intro transpose_table_eq) simp_all
  have cnt: "null_count (column (transposed input) j) =
        int (length (filter (\<lambda>i. \<not> is_valid (column input i) j) [0..<num_columns input]))"
    if "j < num_rows input" for j
    using that assms(6) by (simp add: transposed_column)
  then have "(\<Sum>j<num_rows input. null_count (column (transposed input) j)) =
        (\<Sum>j<num_rows input.
           int (length (filter (\<lambda>i. \<not> is_valid (column input i) j) [0..<num_columns input])))"
    by (intro sum.cong) simp_all
  also have "\<dots> = (\<Sum>i<num_columns input.
                int (length (filter (\<lambda>j. \<not> is_valid (column input i) j) [0..<num_rows input])))"
    by (rule sum_length_filter_swap)
  finally show ?thesis
    using res cnt by simp
qed

theorem transpose_null_counts_witness:
  "\<exists>out. transpose_table example_input_nulls example_mr = Some (Inr out) \<and>
     null_count (column out 0) = 0 \<and> null_count (column out 1) = 1 \<and>
     null_count (column out 2) = 0"
proof -
  note f = example_input_nulls_facts
  have p: "0 < num_columns example_input_nulls" "0 < num_rows example_input_nulls"
      "1 < num_rows example_input_nulls" "2 < num_rows example_input_nulls"
    by (simp_all add: f)
  from transpose_null_counts [OF f(1) p(1,2) f(4,5,6), of example_mr]
  obtain out where out: "transpose_table example_input_nulls example_mr = Some (Inr out)"
    and cnt: "\<And>j. j < num_rows example_input_nulls \<Longrightarrow> null_count (column out j) =
                int (length (filter (\<lambda>i. \<not> is_valid (column example_input_nulls i) j)
                               [0..<num_columns example_input_nulls]))"
    by blast
  have u: "[0..<num_columns example_input_nulls] = [0, 1]"
    by (simp add: f upt_conv_Cons)
  from cnt [OF p(2)] cnt [OF p(3)] cnt [OF p(4)]
  have "null_count (column out 0) = 0" "null_count (column out 1) = 1"
      "null_count (column out 2) = 0"
    unfolding u using example_input_nulls_valid by simp_all
  with out show ?thesis by blast
qed

text \<open>
  C4. The mask policy is all or nothing: if the input has no nulls, no output column
  carries a mask and every output null count is 0; if the input has nulls, every output
  column carries a mask, whatever its own null count is.
\<close>

theorem transpose_mask_policy:
  assumes "valid_table input" "0 < num_columns input" "0 < num_rows input"
    and "\<forall>c\<in>set input. dtype c = t" "is_fixed_width t"
  shows "\<exists>out. transpose_table input mr = Some (Inr out) \<and>
           num_columns out = num_rows input \<and>
           (\<not> has_nulls input \<longrightarrow>
              (\<forall>j<num_rows input. null_mask (column out j) = None \<and> null_count (column out j) = 0)) \<and>
           (has_nulls input \<longrightarrow> (\<forall>j<num_rows input. null_mask (column out j) \<noteq> None))"
proof -
  note hom = homogeneous_list_all [OF assms(2,4)]
  have res: "transpose_table input mr = Some (Inr (transposed input))"
    using assms hom by (intro transpose_table_eq) simp_all
  have "null_mask (column (transposed input) j) = None \<and>
        null_count (column (transposed input) j) = 0"
    if "\<not> has_nulls input" "j < num_rows input" for j
    using that by (simp add: transposed_column)
  moreover have "null_mask (column (transposed input) j) \<noteq> None"
    if "has_nulls input" "j < num_rows input" for j
    using that by (simp add: transposed_column)
  ultimately show ?thesis
    using res by (simp add: transposed_shape)
qed

theorem transpose_mask_policy_witness:
  "(\<exists>out. transpose_table example_input example_mr = Some (Inr out) \<and>
          null_mask (column out 0) = None \<and> null_count (column out 0) = 0 \<and>
          null_mask (column out 2) = None \<and> null_count (column out 2) = 0) \<and>
   (\<exists>out. transpose_table example_input_nulls example_mr = Some (Inr out) \<and>
          null_mask (column out 0) \<noteq> None \<and> null_mask (column out 1) \<noteq> None \<and>
          null_mask (column out 2) \<noteq> None)"
proof
  note f = example_input_facts
  have p: "0 < num_columns example_input" "0 < num_rows example_input"
      "2 < num_rows example_input"
    by (simp_all add: f)
  from transpose_mask_policy [OF f(1) p(1,2) f(4,5), of example_mr] f(6)
  obtain out where out: "transpose_table example_input example_mr = Some (Inr out)"
    and cols: "\<And>j. j < num_rows example_input \<Longrightarrow>
                 null_mask (column out j) = None \<and> null_count (column out j) = 0"
    by blast
  from out cols [OF p(2)] cols [OF p(3)]
  show "\<exists>out. transpose_table example_input example_mr = Some (Inr out) \<and>
          null_mask (column out 0) = None \<and> null_count (column out 0) = 0 \<and>
          null_mask (column out 2) = None \<and> null_count (column out 2) = 0"
    by blast
next
  note f = example_input_nulls_facts
  have p: "0 < num_columns example_input_nulls" "0 < num_rows example_input_nulls"
      "1 < num_rows example_input_nulls" "2 < num_rows example_input_nulls"
    by (simp_all add: f)
  from transpose_mask_policy [OF f(1) p(1,2) f(4,5), of example_mr] f(6)
  obtain out where out: "transpose_table example_input_nulls example_mr = Some (Inr out)"
    and cols: "\<And>j. j < num_rows example_input_nulls \<Longrightarrow> null_mask (column out j) \<noteq> None"
    by blast
  from out cols [OF p(2)] cols [OF p(3)] cols [OF p(4)]
  show "\<exists>out. transpose_table example_input_nulls example_mr = Some (Inr out) \<and>
          null_mask (column out 0) \<noteq> None \<and> null_mask (column out 1) \<noteq> None \<and>
          null_mask (column out 2) \<noteq> None"
    by blast
qed

section \<open>Transpose: round trip\<close>

text \<open>
  C5 fails for a table that has columns but no rows: the guard for degenerate input returns
  the empty table, and transposing that again gives the empty table, with 0 columns where
  the input had 1.
\<close>

theorem transpose_roundtrip_counterexample:
  "valid_table example_no_rows \<and>
   map dtype example_no_rows = [INT32] \<and> is_fixed_width INT32 \<and>
   transpose_table example_no_rows example_mr = Some (Inr []) \<and>
   transpose_table ([] :: int table) example_mr = Some (Inr []) \<and>
   num_columns example_no_rows = 1 \<and> num_rows example_no_rows = 0 \<and>
   num_columns ([] :: int table) = 0"
  by (simp add: example_no_rows_def valid_table_def valid_column_def num_rows_def
        num_columns_def is_fixed_width_def transpose_table_def)

text \<open>
  C5, amended. For a valid table of one fixed-width element type that has at least one row
  or has no columns, transposing twice (with any memory resources) gives a table of the
  same column count and row count and the same element values.
\<close>

theorem transpose_roundtrip:
  assumes "valid_table input" "num_columns input = 0 \<or> 0 < num_rows input"
    and "\<forall>c\<in>set input. dtype c = t" "is_fixed_width t"
  shows "\<exists>out out'. transpose_table input mr = Some (Inr out) \<and>
           transpose_table out mr' = Some (Inr out') \<and>
           num_columns out' = num_columns input \<and> num_rows out' = num_rows input \<and>
           (\<forall>i<num_columns input. \<forall>j<num_rows input.
              element (column out' i) j = element (column input i) j)"
proof (cases "num_columns input = 0")
  case True
  then have "input = []" by (simp add: num_columns_def)
  then show ?thesis
    by (simp add: transpose_table_def num_columns_def num_rows_def)
next
  case False
  with assms(2) have pos: "0 < num_columns input" "0 < num_rows input"
    by simp_all
  note hom = homogeneous_list_all [OF pos(1) assms(3)]
  have pre: "list_all (\<lambda>col. dtype (column input 0) = dtype col) input"
      "is_fixed_width (dtype (column input 0))"
    using hom assms(4) by simp_all
  have r1: "transpose_table input mr = Some (Inr (transposed input))"
    by (rule transpose_table_eq [OF pos pre])
  have r2: "transpose_table (transposed input) mr' = Some (Inr (transposed (transposed input)))"
    by (rule transpose_table_eq [OF transposed_preconditions [OF pos pre]])
  have shape: "num_columns (transposed (transposed input)) = num_columns input"
      "num_rows (transposed (transposed input)) = num_rows input"
    using pos by (simp_all add: transposed_shape)
  have "element (column (transposed (transposed input)) i) j = element (column input i) j"
    if "i < num_columns input" "j < num_rows input" for i j
    using that pos by (simp add: element_transposed transposed_shape)
  with r1 r2 shape show ?thesis by blast
qed

theorem transpose_roundtrip_witness:
  "\<exists>out out'. transpose_table example_input example_mr = Some (Inr out) \<and>
      transpose_table out example_mr = Some (Inr out') \<and>
      num_columns out' = 2 \<and> num_rows out' = 3 \<and>
      element (column out' 0) 0 = 1 \<and> element (column out' 1) 2 = 6"
proof -
  note f = example_input_facts
  have p: "num_columns example_input = 0 \<or> 0 < num_rows example_input"
      "0 < num_columns example_input" "1 < num_columns example_input"
      "0 < num_rows example_input" "2 < num_rows example_input"
    by (simp_all add: f)
  from transpose_roundtrip [OF f(1) p(1) f(4,5), of example_mr example_mr]
  obtain out out' where out: "transpose_table example_input example_mr = Some (Inr out)"
      "transpose_table out example_mr = Some (Inr out')"
      "num_columns out' = num_columns example_input" "num_rows out' = num_rows example_input"
    and el: "\<And>i j. i < num_columns example_input \<Longrightarrow> j < num_rows example_input \<Longrightarrow>
              element (column out' i) j = element (column example_input i) j"
    by blast
  from el [OF p(2) p(4)] el [OF p(3) p(5)]
  have "element (column out' 0) 0 = 1" "element (column out' 1) 2 = 6"
    by (simp_all add: example_input_def element_def column_def)
  with out f(2,3) show ?thesis by metis
qed

section \<open>Transpose: padding bits\<close>

text \<open>
  C10. For a table that has nulls, in the mask of every output column the bits at positions
  from the input column count up to the end of the last mask word are written as 0, and
  the null count of the column is the number of clear bits among the positions below the
  input column count only: the padding positions are not counted, and the null count is at
  most the input column count.
\<close>

theorem transpose_padding_bits:
  assumes "valid_table input" "0 < num_columns input" "0 < num_rows input"
    and "\<forall>c\<in>set input. dtype c = t" "is_fixed_width t" "has_nulls input"
  shows "\<exists>out. transpose_table input mr = Some (Inr out) \<and>
           (\<forall>j<num_rows input. \<exists>m. null_mask (column out j) = Some m \<and>
              (\<forall>b. num_columns input \<le> b \<and> b < 32 * num_bitmask_words (num_columns input) \<longrightarrow>
                    \<not> bit_is_set m b) \<and>
              null_count (column out j) =
                int (length (filter (\<lambda>b. \<not> bit_is_set m b) [0..<num_columns input])) \<and>
              null_count (column out j) \<le> int (num_columns input))"
proof -
  note hom = homogeneous_list_all [OF assms(2,4)]
  let ?n = "num_bitmask_words (num_columns input)"
  have res: "transpose_table input mr = Some (Inr (transposed input))"
    using assms hom by (intro transpose_table_eq) simp_all
  have "\<exists>m. null_mask (column (transposed input) j) = Some m \<and>
              (\<forall>b. num_columns input \<le> b \<and> b < 32 * ?n \<longrightarrow> \<not> bit_is_set m b) \<and>
              null_count (column (transposed input) j) =
                int (length (filter (\<lambda>b. \<not> bit_is_set m b) [0..<num_columns input])) \<and>
              null_count (column (transposed input) j) \<le> int (num_columns input)"
    if j: "j < num_rows input" for j
  proof -
    let ?m = "map (\<lambda>w. band_word input (32 * w) j) [0..<?n]"
    have m: "null_mask (column (transposed input) j) = Some ?m"
      and cnt: "null_count (column (transposed input) j) =
        int (length (filter (\<lambda>i. \<not> is_valid (column input i) j) [0..<num_columns input]))"
      using j assms(6) by (simp_all add: transposed_column)
    have pad: "\<not> bit_is_set ?m b" if "num_columns input \<le> b" "b < 32 * ?n" for b
      using bit_is_set_band_words [OF that(2), of j] that(1) by simp
    have "filter (\<lambda>i. \<not> is_valid (column input i) j) [0..<num_columns input] =
          filter (\<lambda>b. \<not> bit_is_set ?m b) [0..<num_columns input]"
    proof (rule filter_cong [OF refl])
      fix b assume "b \<in> set [0..<num_columns input]"
      then have b: "b < num_columns input" by simp
      with num_bitmask_words_cover [of "num_columns input"] have "b < 32 * ?n" by simp
      from bit_is_set_band_words [OF this, of j] b
      show "(\<not> is_valid (column input b) j) = (\<not> bit_is_set ?m b)" by simp
    qed
    with cnt have cnt': "null_count (column (transposed input) j) =
        int (length (filter (\<lambda>b. \<not> bit_is_set ?m b) [0..<num_columns input]))"
      by simp
    moreover have "length (filter (\<lambda>b. \<not> bit_is_set ?m b) [0..<num_columns input]) \<le> num_columns input"
      using length_filter_le [of "\<lambda>b. \<not> bit_is_set ?m b" "[0..<num_columns input]"] by simp
    ultimately show ?thesis
      using m pad by auto
  qed
  with res show ?thesis by simp
qed

theorem transpose_padding_bits_witness:
  "\<exists>out. transpose_table example_input_nulls example_mr = Some (Inr out) \<and>
     (\<exists>m. null_mask (column out 1) = Some m \<and> \<not> bit_is_set m 2 \<and> \<not> bit_is_set m 31 \<and>
          null_count (column out 1) = int (length (filter (\<lambda>b. \<not> bit_is_set m b) [0..<2])) \<and>
          null_count (column out 1) \<le> 2)"
proof -
  note f = example_input_nulls_facts
  have p: "0 < num_columns example_input_nulls" "0 < num_rows example_input_nulls"
      "1 < num_rows example_input_nulls"
    by (simp_all add: f)
  from transpose_padding_bits [OF f(1) p(1,2) f(4,5,6), of example_mr]
  obtain out where out: "transpose_table example_input_nulls example_mr = Some (Inr out)"
    and cols: "\<And>j. j < num_rows example_input_nulls \<Longrightarrow>
           \<exists>m. null_mask (column out j) = Some m \<and>
              (\<forall>b. num_columns example_input_nulls \<le> b \<and>
                    b < 32 * num_bitmask_words (num_columns example_input_nulls) \<longrightarrow>
                    \<not> bit_is_set m b) \<and>
              null_count (column out j) =
                int (length (filter (\<lambda>b. \<not> bit_is_set m b) [0..<num_columns example_input_nulls])) \<and>
              null_count (column out j) \<le> int (num_columns example_input_nulls)"
    by blast
  from cols [OF p(3)] obtain m where m: "null_mask (column out 1) = Some m"
      "\<And>b. num_columns example_input_nulls \<le> b \<Longrightarrow>
            b < 32 * num_bitmask_words (num_columns example_input_nulls) \<Longrightarrow> \<not> bit_is_set m b"
      "null_count (column out 1) =
         int (length (filter (\<lambda>b. \<not> bit_is_set m b) [0..<num_columns example_input_nulls]))"
      "null_count (column out 1) \<le> int (num_columns example_input_nulls)"
    by blast
  have "\<not> bit_is_set m 2" "\<not> bit_is_set m 31"
    by (rule m(2); simp add: f num_bitmask_words_def)+
  with out m(1) m(3,4) [unfolded f] show ?thesis
    by auto
qed

end
